theory Spec2Isabelle
  imports Main
begin

section \<open>Objects, the store and JSON values\<close>

text \<open>
  An \<open>Employee\<close> object of \<open>src/index.ts\<close> (lines 3-7) is a mutable JavaScript object
  whose \<open>subordinates\<close> array holds references to other objects. \<open>move\<close> mutates these
  arrays in place, so objects live in an explicit store: an address is a natural number,
  \<open>cells\<close> gives the object at an address and \<open>free\<close> is the next address that
  \<open>JSON.parse\<close> will allocate. No object is ever freed, and the addresses from \<open>free\<close>
  on hold no object yet. Identifiers are integers: the source compares them with
  \<open>===\<close> and \<open>!==\<close> only.
\<close>

type_synonym addr = nat

record Employee =
  uniqueId :: int
  name :: string
  subordinates :: "addr list"

record heap =
  cells :: "addr \<Rightarrow> Employee"
  free :: addr

text \<open>
  The errors the class can raise: the \<open>Error\<close> thrown by \<open>move\<close> (line 34), the
  \<open>TypeError\<close> of \<open>JSON.stringify\<close> on a circular structure, the \<open>RangeError\<close> of a
  recursion deeper than the call stack allows, and the \<open>TypeError\<close> of reading a
  property of \<open>undefined\<close>.
\<close>

datatype error = EntityNotFound | CircularStructure | StackOverflow | UndefinedRead

datatype outcome = Return | Throw error

text \<open>The text that \<open>JSON.stringify\<close> writes for an employee, as a value.\<close>

datatype json = JObj (jid: int) (jname: string) (jsubs: "json list")

section \<open>Traversal\<close>

text \<open>
  The body of a \<open>for (const x of xs)\<close> loop that returns the first non-null result:
  an exception leaves the loop at once, a found object returns it, \<open>null\<close> goes on.
\<close>

fun first_found :: "('a \<Rightarrow> error + 'b option) \<Rightarrow> 'a list \<Rightarrow> error + 'b option" where
  "first_found f [] = Inr None"
| "first_found f (x # xs) =
     (case f x of
        Inl e \<Rightarrow> Inl e
      | Inr (Some y) \<Rightarrow> Inr (Some y)
      | Inr None \<Rightarrow> first_found f xs)"

text \<open>
  \<open>findEmployee\<close> (lines 78-91). The first argument is the number of nested calls the
  call stack still allows: on a store with a cycle the source recurses until the engine
  throws its \<open>RangeError\<close>.
\<close>

fun findEmployee :: "nat \<Rightarrow> (addr \<Rightarrow> Employee) \<Rightarrow> addr \<Rightarrow> int \<Rightarrow> error + addr option" where
  "findEmployee 0 h root i = Inl StackOverflow"
| "findEmployee (Suc d) h root i =
     (if uniqueId (h root) = i then Inr (Some root)
      else first_found (\<lambda>subordinate. findEmployee d h subordinate i) (subordinates (h root)))"

text \<open>\<open>findEmployeeSupervisor\<close> (lines 93-110).\<close>

fun findEmployeeSupervisor :: "nat \<Rightarrow> (addr \<Rightarrow> Employee) \<Rightarrow> addr \<Rightarrow> int \<Rightarrow> error + addr option" where
  "findEmployeeSupervisor 0 h root i = Inl StackOverflow"
| "findEmployeeSupervisor (Suc d) h root i =
     (if subordinates (h root) = [] then Inr None
      else first_found
             (\<lambda>subordinate.
                if uniqueId (h subordinate) = i then Inr (Some root)
                else findEmployeeSupervisor d h subordinate i)
             (subordinates (h root)))"

section \<open>Deep cloning through JSON\<close>

fun map_result :: "('a \<Rightarrow> error + 'b) \<Rightarrow> 'a list \<Rightarrow> error + 'b list" where
  "map_result f [] = Inr []"
| "map_result f (x # xs) =
     (case f x of
        Inl e \<Rightarrow> Inl e
      | Inr y \<Rightarrow> (case map_result f xs of Inl e \<Rightarrow> Inl e | Inr ys \<Rightarrow> Inr (y # ys)))"

text \<open>
  \<open>JSON.stringify\<close> walks the object graph and keeps the objects it is inside of on a
  stack; meeting one of them again is the circular-structure \<open>TypeError\<close>.
\<close>

fun stringify :: "nat \<Rightarrow> (addr \<Rightarrow> Employee) \<Rightarrow> addr list \<Rightarrow> addr \<Rightarrow> error + json" where
  "stringify 0 h stk a = Inl StackOverflow"
| "stringify (Suc d) h stk a =
     (if a \<in> set stk then Inl CircularStructure
      else case map_result (stringify d h (a # stk)) (subordinates (h a)) of
             Inl e \<Rightarrow> Inl e
           | Inr js \<Rightarrow> Inr (JObj (uniqueId (h a)) (name (h a)) js))"

definition alloc :: "Employee \<Rightarrow> heap \<Rightarrow> addr \<times> heap" where
  "alloc e h = (free h, \<lparr>cells = (cells h)(free h := e), free = Suc (free h)\<rparr>)"

text \<open>\<open>JSON.parse\<close> builds fresh objects: the subordinates first, then their owner.\<close>

fun parse :: "json \<Rightarrow> heap \<Rightarrow> addr \<times> heap"
  and parse_list :: "json list \<Rightarrow> heap \<Rightarrow> addr list \<times> heap" where
  "parse (JObj i n js) h =
     (case parse_list js h of
        (as, h1) \<Rightarrow> alloc \<lparr>uniqueId = i, name = n, subordinates = as\<rparr> h1)"
| "parse_list [] h = ([], h)"
| "parse_list (j # js) h =
     (case parse j h of
        (a, h1) \<Rightarrow> (case parse_list js h1 of (as, h2) \<Rightarrow> (a # as, h2)))"

text \<open>\<open>JSON.parse(JSON.stringify(x))\<close>: the result or the exception, and the store after.\<close>

definition clone :: "nat \<Rightarrow> addr \<Rightarrow> heap \<Rightarrow> (error + addr) \<times> heap" where
  "clone d a h =
     (case stringify d (cells h) [] a of
        Inl e \<Rightarrow> (Inl e, h)
      | Inr j \<Rightarrow> (case parse j h of (c, h1) \<Rightarrow> (Inr c, h1)))"

section \<open>The application object\<close>

record history_entry =
  move_tag :: string
  undoData :: "addr list"

record redo_entry =
  redo_tag :: string
  redoData :: "addr list"

text \<open>
  The fields of \<open>EmployeeOrgApp\<close> (lines 17-20) together with the store they point
  into. \<open>current\<close> is \<open>None\<close> when the field holds \<open>undefined\<close>, which an array read
  out of range in \<open>undo\<close> or \<open>redo\<close> would produce.
\<close>

record EmployeeOrgApp =
  heap :: heap
  ceo :: addr
  history :: "history_entry list"
  current :: "addr option"
  redoStack :: "redo_entry list"

text \<open>A JavaScript array read \<open>xs[i]\<close>: \<open>undefined\<close> out of range.\<close>

definition at_index :: "'a list \<Rightarrow> nat \<Rightarrow> 'a option" where
  "at_index xs i = (if i < length xs then Some (xs ! i) else None)"

text \<open>The constructor (lines 22-27); it throws when the clone does.\<close>

definition new_app :: "nat \<Rightarrow> heap \<Rightarrow> addr \<Rightarrow> error + EmployeeOrgApp" where
  "new_app d h c =
     (case clone d c h of
        (Inl e, h1) \<Rightarrow> Inl e
      | (Inr cur, h1) \<Rightarrow>
          Inr \<lparr>heap = h1, ceo = c, history = [], current = Some cur, redoStack = []\<rparr>)"

text \<open>\<open>createUndoData\<close> (lines 112-139), on the live root \<open>cur\<close>.\<close>

definition createUndoData :: "nat \<Rightarrow> addr \<Rightarrow> addr \<Rightarrow> addr \<Rightarrow> heap \<Rightarrow> (error + addr list) \<times> heap" where
  "createUndoData d cur employee supervisor h =
     (case findEmployeeSupervisor d (cells h) cur (uniqueId (cells h employee)) of
        Inl e \<Rightarrow> (Inl e, h)
      | Inr currentSupervisor \<Rightarrow>
     (case clone d cur h of
        (Inl e, h1) \<Rightarrow> (Inl e, h1)
      | (Inr cloneCurrent, h1) \<Rightarrow>
     (case (case currentSupervisor of
              None \<Rightarrow> (Inr [], h1)
            | Some cs \<Rightarrow>
                (case clone d cs h1 of
                   (Inl e, h2) \<Rightarrow> (Inl e, h2)
                 | (Inr cloneSupervisor, h2) \<Rightarrow> (Inr [cloneSupervisor], h2))) of
        (Inl e, h2) \<Rightarrow> (Inl e, h2)
      | (Inr pushedSupervisor, h2) \<Rightarrow>
     (case clone d employee h2 of
        (Inl e, h3) \<Rightarrow> (Inl e, h3)
      | (Inr cloneEmployee, h3) \<Rightarrow>
     (case clone d supervisor h3 of
        (Inl e, h4) \<Rightarrow> (Inl e, h4)
      | (Inr cloneSupervisorNew, h4) \<Rightarrow>
          (Inr ([cloneCurrent] @ pushedSupervisor @ [cloneEmployee, cloneSupervisorNew]),
           h4))))))"

text \<open>Assignments to the \<open>subordinates\<close> field of one object.\<close>

definition set_subordinates :: "addr \<Rightarrow> addr list \<Rightarrow> heap \<Rightarrow> heap" where
  "set_subordinates a xs h = h\<lparr>cells := (cells h)(a := (cells h a)\<lparr>subordinates := xs\<rparr>)\<rparr>"

text \<open>
  Lines 45-49 of \<open>move\<close>: when the employee has a supervisor, its \<open>subordinates\<close>
  array becomes the array filtered by identifier.
\<close>

definition remove_subordinate :: "addr option \<Rightarrow> int \<Rightarrow> heap \<Rightarrow> heap" where
  "remove_subordinate currentSupervisor employeeID h =
     (case currentSupervisor of
        None \<Rightarrow> h
      | Some cs \<Rightarrow>
          set_subordinates cs
            (filter (\<lambda>sub. uniqueId (cells h sub) \<noteq> employeeID) (subordinates (cells h cs))) h)"

text \<open>Line 52 of \<open>move\<close>: \<open>supervisor.subordinates.push(employee)\<close>.\<close>

definition push_subordinate :: "addr \<Rightarrow> addr \<Rightarrow> heap \<Rightarrow> heap" where
  "push_subordinate supervisor employee h =
     set_subordinates supervisor (subordinates (cells h supervisor) @ [employee]) h"

text \<open>
  \<open>move\<close> (lines 29-53). The result is how the call ends and the state it leaves
  behind, also when it throws.
\<close>

definition move :: "nat \<Rightarrow> EmployeeOrgApp \<Rightarrow> int \<Rightarrow> int \<Rightarrow> outcome \<times> EmployeeOrgApp" where
  "move d s employeeID supervisorID =
     (case current s of
        None \<Rightarrow> (Throw UndefinedRead, s)
      | Some cur \<Rightarrow>
     (case findEmployee d (cells (heap s)) cur employeeID of
        Inl e \<Rightarrow> (Throw e, s)
      | Inr employee \<Rightarrow>
     (case findEmployee d (cells (heap s)) cur supervisorID of
        Inl e \<Rightarrow> (Throw e, s)
      | Inr supervisor \<Rightarrow>
     (case (employee, supervisor) of
        (Some emp, Some spv) \<Rightarrow>
          (case createUndoData d cur emp spv (heap s) of
             (Inl e, h1) \<Rightarrow> (Throw e, s\<lparr>heap := h1\<rparr>)
           | (Inr ud, h1) \<Rightarrow>
               (let s1 = s\<lparr>heap := h1,
                           history := history s @ [\<lparr>move_tag = ''move'', undoData = ud\<rparr>]\<rparr>
                in case findEmployeeSupervisor d (cells h1) cur employeeID of
                     Inl e \<Rightarrow> (Throw e, s1)
                   | Inr currentSupervisor \<Rightarrow>
                       (Return,
                        s1\<lparr>heap := push_subordinate spv emp
                                      (remove_subordinate currentSupervisor employeeID h1)\<rparr>)))
      | _ \<Rightarrow> (Throw EntityNotFound, s)))))"

text \<open>\<open>undo\<close> (lines 55-62): \<open>pop\<close> takes the last element of the array.\<close>

definition undo :: "EmployeeOrgApp \<Rightarrow> EmployeeOrgApp" where
  "undo s =
     (if history s = [] then s
      else let lastAction = last (history s);
               s1 = s\<lparr>history := butlast (history s)\<rparr>
           in if move_tag lastAction = ''move''
              then s1\<lparr>current := at_index (undoData lastAction) 0\<rparr>
              else s1)"

text \<open>\<open>redo\<close> (lines 68-76).\<close>

definition redo :: "EmployeeOrgApp \<Rightarrow> EmployeeOrgApp" where
  "redo s =
     (if redoStack s = [] then s
      else let lastRedoAction = last (redoStack s);
               s1 = s\<lparr>redoStack := butlast (redoStack s)\<rparr>
           in if redo_tag lastRedoAction = ''move''
              then s1\<lparr>history := history s1 @
                                  [\<lparr>move_tag = ''move'', undoData = redoData lastRedoAction\<rparr>],
                      current := at_index (redoData lastRedoAction) 1\<rparr>
              else s1)"

text \<open>
  The states a chart can be in: the one the constructor built, followed by calls of
  \<open>move\<close>, \<open>undo\<close> and \<open>redo\<close> with any arguments, whether \<open>move\<close> returns or throws.
\<close>

inductive reachable :: "EmployeeOrgApp \<Rightarrow> EmployeeOrgApp \<Rightarrow> bool" for s0 :: EmployeeOrgApp where
  reach_init: "reachable s0 s0"
| reach_move: "reachable s0 s \<Longrightarrow> reachable s0 (snd (move d s employeeID supervisorID))"
| reach_undo: "reachable s0 s \<Longrightarrow> reachable s0 (undo s)"
| reach_redo: "reachable s0 s \<Longrightarrow> reachable s0 (redo s)"

section \<open>Regions of the store and trees in it\<close>

text \<open>
  A set of addresses is closed when no object in it refers to an object outside. The
  store is well formed when the allocated addresses are closed.
\<close>

definition closed :: "(addr \<Rightarrow> Employee) \<Rightarrow> addr set \<Rightarrow> bool" where
  "closed h R \<longleftrightarrow> (\<forall>a\<in>R. set (subordinates (h a)) \<subseteq> R)"

definition heap_ok :: "heap \<Rightarrow> bool" where
  "heap_ok h \<longleftrightarrow> closed (cells h) {..<free h}"

text \<open>
  \<open>extends h h'\<close>: the store \<open>h'\<close> is \<open>h\<close> with new objects allocated, which refer
  to new objects only.
\<close>

definition extends :: "heap \<Rightarrow> heap \<Rightarrow> bool" where
  "extends h h' \<longleftrightarrow>
     free h \<le> free h' \<and> (\<forall>b<free h. cells h' b = cells h b)
     \<and> closed (cells h') {free h..<free h'}"

text \<open>
  The layout of a tree in the store: the address of each node and the layouts of its
  subordinates. \<open>shape h t\<close> says that the store \<open>h\<close> holds the layout \<open>t\<close>; the
  structure below \<open>node t\<close> is a tree, with no object shared or on a cycle, when the
  addresses of \<open>t\<close> in pre-order, \<open>nodes t\<close>, are distinct.
\<close>

datatype atree = ANode (node: addr) (kids: "atree list")

fun nodes :: "atree \<Rightarrow> addr list" where
  "nodes (ANode a ts) = a # concat (map nodes ts)"

fun shape :: "(addr \<Rightarrow> Employee) \<Rightarrow> atree \<Rightarrow> bool" where
  "shape h (ANode a ts) \<longleftrightarrow> subordinates (h a) = map node ts \<and> (\<forall>t\<in>set ts. shape h t)"

fun height :: "atree \<Rightarrow> nat" where
  "height (ANode a ts) = Suc (Max (insert 0 (height ` set ts)))"

fun json_of :: "(addr \<Rightarrow> Employee) \<Rightarrow> atree \<Rightarrow> json" where
  "json_of h (ANode a ts) = JObj (uniqueId (h a)) (name (h a)) (map (json_of h) ts)"

fun jheight :: "json \<Rightarrow> nat" where
  "jheight (JObj i n js) = Suc (Max (insert 0 (jheight ` set js)))"

text \<open>The identifiers of a tree, in pre-order.\<close>

definition ids :: "(addr \<Rightarrow> Employee) \<Rightarrow> atree \<Rightarrow> int list" where
  "ids h t = map (\<lambda>a. uniqueId (h a)) (nodes t)"

text \<open>
  The specification's \<open>findSupervisor\<close>, in its own words: of the nodes in pre-order,
  the first whose immediate subordinates contain a node with the identifier.
\<close>

definition spec_findSupervisor :: "(addr \<Rightarrow> Employee) \<Rightarrow> atree \<Rightarrow> int \<Rightarrow> addr option" where
  "spec_findSupervisor h t i =
     List.find (\<lambda>p. \<exists>c\<in>set (subordinates (h p)). uniqueId (h c) = i) (nodes t)"

text \<open>
  The result \<open>r\<close> of a supervisor search, against the first node with the identifier
  among \<open>below\<close>: \<open>null\<close> when there is none, else an owner of that node among \<open>ns\<close>.
\<close>

definition sup_result ::
  "(addr \<Rightarrow> Employee) \<Rightarrow> int \<Rightarrow> addr list \<Rightarrow> addr list \<Rightarrow> (error + addr option) \<Rightarrow> bool" where
  "sup_result h i below ns r \<longleftrightarrow>
     (case List.find (\<lambda>a. uniqueId (h a) = i) below of
        None \<Rightarrow> r = Inr None
      | Some c \<Rightarrow> \<exists>p. r = Inr (Some p) \<and> p \<in> set ns \<and> c \<in> set (subordinates (h p)))"

text \<open>The objects that can be reached from \<open>a\<close> through \<open>subordinates\<close> arrays.\<close>

definition reach :: "(addr \<Rightarrow> Employee) \<Rightarrow> addr \<Rightarrow> addr set" where
  "reach h a = {b. (a, b) \<in> {(x, y). y \<in> set (subordinates (h x))}\<^sup>*}"

text \<open>
  The layout left when the subordinates selected by \<open>K\<close> are taken out of the node at
  address \<open>p\<close>, as the \<open>filter\<close> of line 46 does in the store.
\<close>

fun prune :: "(addr \<Rightarrow> bool) \<Rightarrow> addr \<Rightarrow> atree \<Rightarrow> atree" where
  "prune K p (ANode a ts) =
     ANode a (filter (\<lambda>k. a \<noteq> p \<or> \<not> K (node k)) (map (prune K p) ts))"




text \<open>
  The state of a chart whose objects were all allocated from address \<open>n\<close> on: the
  live root and every snapshot on the undo stack lie in the closed region from \<open>n\<close>
  to the next free address, and the redo stack is empty.
\<close>

definition region_ok :: "addr \<Rightarrow> EmployeeOrgApp \<Rightarrow> bool" where
  "region_ok n s \<longleftrightarrow>
     n \<le> free (heap s) \<and> closed (cells (heap s)) {n..<free (heap s)}
     \<and> (\<forall>c. current s = Some c \<longrightarrow> n \<le> c \<and> c < free (heap s))
     \<and> (\<forall>e\<in>set (history s). \<forall>a\<in>set (undoData e). n \<le> a \<and> a < free (heap s))
     \<and> redoStack s = []"

section \<open>A concrete chart\<close>

text \<open>
  A store holding the chart CEO(1) with subordinates A(2), who has the subordinate C(4),
  and B(3); the chart object is at address 3. \<open>example_app\<close> is the application the
  constructor builds from it: its live copy is rooted at address 7.
\<close>

definition example_heap :: heap where
  "example_heap =
     \<lparr>cells = (\<lambda>_. \<lparr>uniqueId = 0, name = [], subordinates = []\<rparr>)
        (0 := \<lparr>uniqueId = 4, name = ''C'', subordinates = []\<rparr>,
         1 := \<lparr>uniqueId = 2, name = ''A'', subordinates = [0]\<rparr>,
         2 := \<lparr>uniqueId = 3, name = ''B'', subordinates = []\<rparr>,
         3 := \<lparr>uniqueId = 1, name = ''CEO'', subordinates = [1, 2]\<rparr>),
      free = 4\<rparr>"

definition example_app :: EmployeeOrgApp where
  "example_app = projr (new_app 5 example_heap 3)"

text \<open>The layout of the live tree of \<open>example_app\<close>.\<close>

definition example_tree :: atree where
  "example_tree = ANode 7 [ANode 5 [ANode 4 []], ANode 6 []]"

text \<open>
  A chart in which the identifier 5 occurs three times: CEO(5) with subordinates A(2),
  who has the subordinate C(5), and B(5).
\<close>

definition dup_heap :: heap where
  "dup_heap =
     \<lparr>cells = (\<lambda>_. \<lparr>uniqueId = 0, name = [], subordinates = []\<rparr>)
        (0 := \<lparr>uniqueId = 5, name = ''C'', subordinates = []\<rparr>,
         1 := \<lparr>uniqueId = 2, name = ''A'', subordinates = [0]\<rparr>,
         2 := \<lparr>uniqueId = 5, name = ''B'', subordinates = []\<rparr>,
         3 := \<lparr>uniqueId = 5, name = ''CEO'', subordinates = [1, 2]\<rparr>),
      free = 4\<rparr>"

definition dup_tree :: atree where
  "dup_tree = ANode 3 [ANode 1 [ANode 0 []], ANode 2 []]"

section \<open>Loops and lookups\<close>

lemma first_found_None:
  "first_found f xs = Inr None \<longleftrightarrow> (\<forall>x\<in>set xs. f x = Inr None)"
  by (induction xs) (auto split: sum.splits option.splits)

lemma first_found_no_error:
  "(\<And>x. x \<in> set xs \<Longrightarrow> f x \<noteq> Inl e) \<Longrightarrow> first_found f xs \<noteq> Inl e"
  by (induction xs) (auto split: sum.splits option.splits)

text \<open>
  A lookup that came back with \<open>null\<close> has walked the whole structure below \<open>a\<close>
  within the stack it had, so no other lookup from \<open>a\<close> can exhaust the stack.
\<close>

lemma findEmployee_None_total:
  "findEmployee d h a i = Inr None \<Longrightarrow> findEmployee d h a j \<noteq> Inl e"
proof (induction d arbitrary: a)
  case 0
  then show ?case by simp
next
  case (Suc d)
  from Suc.prems have ff:
    "first_found (\<lambda>s. findEmployee d h s i) (subordinates (h a)) = Inr None"
    by (auto split: if_splits)
  then have "\<And>x. x \<in> set (subordinates (h a)) \<Longrightarrow> findEmployee d h x i = Inr None"
    by (simp add: first_found_None)
  then have "\<And>x. x \<in> set (subordinates (h a)) \<Longrightarrow> findEmployee d h x j \<noteq> Inl e"
    using Suc.IH by blast
  then have "first_found (\<lambda>s. findEmployee d h s j) (subordinates (h a)) \<noteq> Inl e"
    by (rule first_found_no_error)
  then show ?case by simp
qed

section \<open>Closed regions\<close>

lemma map_result_cong:
  "(\<And>x. x \<in> set xs \<Longrightarrow> f x = g x) \<Longrightarrow> map_result f xs = map_result g xs"
  by (induction xs) (auto split: sum.splits)

lemma first_found_cong:
  "(\<And>x. x \<in> set xs \<Longrightarrow> f x = g x) \<Longrightarrow> first_found f xs = first_found g xs"
  by (induction xs) (auto split: sum.splits option.splits)

lemma closedD: "closed h R \<Longrightarrow> a \<in> R \<Longrightarrow> b \<in> set (subordinates (h a)) \<Longrightarrow> b \<in> R"
  by (auto simp: closed_def)

lemma stringify_agree:
  assumes "closed h R" and "\<And>b. b \<in> R \<Longrightarrow> h' b = h b"
  shows "a \<in> R \<Longrightarrow> stringify d h' stk a = stringify d h stk a"
proof (induction d arbitrary: a stk)
  case 0
  show ?case by simp
next
  case (Suc d)
  have "map_result (stringify d h' (a # stk)) (subordinates (h a))
        = map_result (stringify d h (a # stk)) (subordinates (h a))"
    by (rule map_result_cong) (use Suc assms(1) in \<open>blast dest: closedD\<close>)
  with Suc.prems assms(2) [of a] show ?case by (simp split: sum.splits)
qed

lemma findEmployee_agree:
  assumes "closed h R" and "\<And>b. b \<in> R \<Longrightarrow> h' b = h b"
  shows "a \<in> R \<Longrightarrow> findEmployee d h' a i = findEmployee d h a i"
proof (induction d arbitrary: a)
  case 0
  show ?case by simp
next
  case (Suc d)
  have "first_found (\<lambda>s. findEmployee d h' s i) (subordinates (h a))
        = first_found (\<lambda>s. findEmployee d h s i) (subordinates (h a))"
    by (rule first_found_cong) (use Suc assms(1) in \<open>blast dest: closedD\<close>)
  with Suc.prems assms(2) show ?case by simp
qed

lemma findEmployeeSupervisor_agree:
  assumes "closed h R" and "\<And>b. b \<in> R \<Longrightarrow> h' b = h b"
  shows "a \<in> R \<Longrightarrow> findEmployeeSupervisor d h' a i = findEmployeeSupervisor d h a i"
proof (induction d arbitrary: a)
  case 0
  show ?case by simp
next
  case (Suc d)
  have "first_found (\<lambda>s. if uniqueId (h' s) = i then Inr (Some a)
                           else findEmployeeSupervisor d h' s i) (subordinates (h a))
        = first_found (\<lambda>s. if uniqueId (h s) = i then Inr (Some a)
                           else findEmployeeSupervisor d h s i) (subordinates (h a))"
    by (rule first_found_cong) (use Suc assms in \<open>auto dest: closedD\<close>)
  with Suc.prems assms(2) show ?case by simp
qed

lemma first_found_Some:
  "first_found f xs = Inr (Some y) \<Longrightarrow> \<exists>x\<in>set xs. f x = Inr (Some y)"
  by (induction xs) (auto split: sum.splits option.splits)

lemma findEmployee_in_region:
  assumes "closed h R"
  shows "a \<in> R \<Longrightarrow> findEmployee d h a i = Inr (Some x) \<Longrightarrow> x \<in> R \<and> uniqueId (h x) = i"
proof (induction d arbitrary: a)
  case 0
  then show ?case by simp
next
  case (Suc d)
  show ?case
  proof (cases "uniqueId (h a) = i")
    case True
    with Suc.prems show ?thesis by simp
  next
    case False
    with Suc.prems obtain s where "s \<in> set (subordinates (h a))"
      and "findEmployee d h s i = Inr (Some x)"
      by (auto dest: first_found_Some)
    with Suc.IH [of s] Suc.prems(1) assms show ?thesis
      by (blast dest: closedD)
  qed
qed

lemma findEmployeeSupervisor_in_region:
  assumes "closed h R"
  shows "a \<in> R \<Longrightarrow> findEmployeeSupervisor d h a i = Inr (Some x) \<Longrightarrow> x \<in> R"
proof (induction d arbitrary: a)
  case 0
  then show ?case by simp
next
  case (Suc d)
  from Suc.prems(2) obtain s where s: "s \<in> set (subordinates (h a))"
    and r: "(if uniqueId (h s) = i then Inr (Some a)
             else findEmployeeSupervisor d h s i) = Inr (Some x)"
    by (auto split: if_splits dest: first_found_Some)
  show ?case
  proof (cases "uniqueId (h s) = i")
    case True
    with r Suc.prems(1) show ?thesis by simp
  next
    case False
    with r s Suc.IH [of s] Suc.prems(1) assms show ?thesis
      by (auto dest: closedD)
  qed
qed


lemma node_in_nodes [simp]: "node t \<in> set (nodes t)"
  by (cases t) simp

lemma nodes_nonempty [simp]: "nodes t \<noteq> []"
  by (cases t) simp

lemma shape_agree:
  "(\<And>a. a \<in> set (nodes t) \<Longrightarrow> h' a = h a) \<Longrightarrow> shape h' t = shape h t"
  by (induction t) auto

lemma json_of_agree:
  "(\<And>a. a \<in> set (nodes t) \<Longrightarrow> h' a = h a) \<Longrightarrow> json_of h' t = json_of h t"
  by (induction t) auto

lemma shape_kids_in_nodes:
  "shape h t \<Longrightarrow> a \<in> set (nodes t) \<Longrightarrow> set (subordinates (h a)) \<subseteq> set (nodes t)"
proof (induction t)
  case (ANode b ts)
  show ?case
  proof (cases "a = b")
    case True
    with ANode.prems show ?thesis by auto
  next
    case False
    with ANode.prems obtain k where k: "k \<in> set ts" "a \<in> set (nodes k)" by auto
    with ANode.IH [of k] ANode.prems have "set (subordinates (h a)) \<subseteq> set (nodes k)" by simp
    with k show ?thesis by auto
  qed
qed

lemma shape_closed: "shape h t \<Longrightarrow> closed h (set (nodes t))"
  unfolding closed_def using shape_kids_in_nodes by blast

lemma height_kid: "k \<in> set ts \<Longrightarrow> height k \<le> Max (insert 0 (height ` set ts))"
  by (simp add: Max_ge)

lemma map_result_map:
  "(\<And>x. x \<in> set xs \<Longrightarrow> f (g x) = Inr (k x)) \<Longrightarrow> map_result f (map g xs) = Inr (map k xs)"
  by (induction xs) auto

lemma stringify_tree:
  "shape h t \<Longrightarrow> distinct (nodes t) \<Longrightarrow> set (nodes t) \<inter> set stk = {} \<Longrightarrow> height t \<le> d
   \<Longrightarrow> stringify d h stk (node t) = Inr (json_of h t)"
proof (induction t arbitrary: d stk)
  case (ANode a ts)
  from ANode.prems(4) obtain d' where d: "d = Suc d'" by (cases d) auto
  have "map_result (stringify d' h (a # stk)) (map node ts) = Inr (map (json_of h) ts)"
  proof (rule map_result_map)
    fix k assume k: "k \<in> set ts"
    have "height k \<le> d'" using k ANode.prems(4) d by auto
    moreover have "distinct (nodes k)" using ANode.prems(2) k by (auto simp: distinct_concat_iff)
    moreover have "set (nodes k) \<inter> set (a # stk) = {}" using ANode.prems(2,3) k by auto
    moreover have "shape h k" using ANode.prems(1) k by simp
    ultimately show "stringify d' h (a # stk) (node k) = Inr (json_of h k)"
      using ANode.IH [OF k] by blast
  qed
  with ANode.prems(1,3) d show ?case by simp
qed

lemma map_result_Inr:
  "map_result f xs = Inr ys \<Longrightarrow> list_all2 (\<lambda>x y. f x = Inr y) xs ys"
  by (induction xs arbitrary: ys) (auto split: sum.splits)

lemma stringify_height: "stringify d h stk a = Inr j \<Longrightarrow> jheight j \<le> d"
proof (induction d arbitrary: stk a j)
  case 0
  then show ?case by simp
next
  case (Suc d)
  from Suc.prems obtain js where js: "map_result (stringify d h (a # stk)) (subordinates (h a)) = Inr js"
    and j: "j = JObj (uniqueId (h a)) (name (h a)) js"
    by (auto split: if_splits sum.splits)
  have "\<And>x. x \<in> set js \<Longrightarrow> jheight x \<le> d"
  proof -
    fix x assume "x \<in> set js"
    with map_result_Inr [OF js] obtain y where "stringify d h (a # stk) y = Inr x"
      by (auto simp: list_all2_conv_all_nth in_set_conv_nth)
    then show "jheight x \<le> d" by (rule Suc.IH)
  qed
  then show ?case using j by auto
qed

lemma height_json_of: "jheight (json_of h t) = height t"
  by (induction t) (auto simp: image_image cong: image_cong_simp)


lemma alloc_simps:
  "alloc e h = (a, h') \<Longrightarrow> a = free h \<and> free h' = Suc (free h) \<and> cells h' = (cells h)(free h := e)"
  by (auto simp: alloc_def)

lemma parse_trees:
  "parse j h = (a, h') \<Longrightarrow>
     free h \<le> free h' \<and> (\<forall>b<free h. cells h' b = cells h b) \<and>
     (\<exists>t. node t = a \<and> shape (cells h') t \<and> distinct (nodes t)
          \<and> set (nodes t) = {free h..<free h'} \<and> json_of (cells h') t = j)"
  "parse_list js h = (as, h') \<Longrightarrow>
     free h \<le> free h' \<and> (\<forall>b<free h. cells h' b = cells h b) \<and>
     (\<exists>ts. map node ts = as \<and> (\<forall>t\<in>set ts. shape (cells h') t)
          \<and> distinct (concat (map nodes ts))
          \<and> set (concat (map nodes ts)) = {free h..<free h'}
          \<and> map (json_of (cells h')) ts = js)"
proof (induction j h and js h arbitrary: a h' and as h' rule: parse_parse_list.induct)
  case (1 i n js h)
  obtain bs h1 where pl: "parse_list js h = (bs, h1)" by (cases "parse_list js h")
  from "1.IH" [OF pl] obtain ts where le: "free h \<le> free h1"
    and fr: "\<forall>b<free h. cells h1 b = cells h b"
    and ts: "map node ts = bs" "\<forall>t\<in>set ts. shape (cells h1) t"
      "distinct (concat (map nodes ts))"
      "set (concat (map nodes ts)) = {free h..<free h1}"
      "map (json_of (cells h1)) ts = js"
    by blast
  from "1.prems" pl have al: "alloc \<lparr>uniqueId = i, name = n, subordinates = bs\<rparr> h1 = (a, h')"
    by simp
  note a = alloc_simps [OF al]
  have same: "\<And>t. t \<in> set ts \<Longrightarrow> \<forall>b\<in>set (nodes t). cells h' b = cells h1 b"
    using ts(4) a by auto
  have sh: "\<And>t. t \<in> set ts \<Longrightarrow> shape (cells h') t"
    using same ts(2) shape_agree [of _ "cells h'" "cells h1"] by blast
  have js: "map (json_of (cells h')) ts = js"
    using same ts(5) json_of_agree [of _ "cells h'" "cells h1"] by (auto cong: map_cong)
  let ?t = "ANode a ts"
  have "node ?t = a" by simp
  moreover have "shape (cells h') ?t" using sh ts(1) a by simp
  moreover have "distinct (nodes ?t)" using ts(3,4) a by simp
  moreover have "set (nodes ?t) = {free h..<free h'}" using ts(4) a le by auto
  moreover have "json_of (cells h') ?t = JObj i n js" using js a by simp
  moreover have "free h \<le> free h'" using le a by simp
  moreover have "\<forall>b<free h. cells h' b = cells h b" using fr le a by simp
  ultimately show ?case by blast
next
  case (2 h)
  then show ?case by (intro conjI exI [of _ "[]"]) auto
next
  case (3 j js h)
  obtain b h1 where p: "parse j h = (b, h1)" by (cases "parse j h")
  obtain bs h2 where pl: "parse_list js h1 = (bs, h2)" by (cases "parse_list js h1")
  from "3.prems" p pl have eq: "as = b # bs" "h' = h2" by auto
  from "3.IH"(1) [OF p] obtain t where le1: "free h \<le> free h1"
    and fr1: "\<forall>x<free h. cells h1 x = cells h x"
    and t: "node t = b" "shape (cells h1) t" "distinct (nodes t)"
      "set (nodes t) = {free h..<free h1}" "json_of (cells h1) t = j"
    by blast
  from "3.IH"(2) [OF p [symmetric] pl] obtain ts where le2: "free h1 \<le> free h2"
    and fr2: "\<forall>x<free h1. cells h2 x = cells h1 x"
    and ts: "map node ts = bs" "\<forall>t\<in>set ts. shape (cells h2) t"
      "distinct (concat (map nodes ts))"
      "set (concat (map nodes ts)) = {free h1..<free h2}"
      "map (json_of (cells h2)) ts = js"
    by blast
  have same: "\<forall>x\<in>set (nodes t). cells h2 x = cells h1 x" using t(4) fr2 by simp
  have "shape (cells h2) t" using same t(2) shape_agree [of t "cells h2" "cells h1"] by blast
  moreover have "json_of (cells h2) t = j"
    using same t(5) json_of_agree [of t "cells h2" "cells h1"] by simp
  moreover have "distinct (concat (map nodes (t # ts)))" using t(3,4) ts(3,4) by auto
  moreover have "set (concat (map nodes (t # ts))) = {free h..<free h2}"
    using t(4) ts(4) le1 le2 by auto
  moreover have "\<forall>x<free h. cells h2 x = cells h x" using fr1 fr2 le1 by simp
  ultimately show ?case unfolding eq using t(1) ts(1,2,5) le1 le2
    by (intro conjI exI [of _ "t # ts"]) auto
qed


lemma extends_refl: "extends h h"
  by (simp add: extends_def closed_def)

lemma closed_agree:
  "closed h R \<Longrightarrow> (\<And>b. b \<in> R \<Longrightarrow> h' b = h b) \<Longrightarrow> closed h' R"
  by (simp add: closed_def)

lemma closed_Un: "closed h R \<Longrightarrow> closed h Q \<Longrightarrow> closed h (R \<union> Q)"
  by (auto simp: closed_def)

lemma extends_trans:
  assumes "extends h h1" and "extends h1 h2"
  shows "extends h h2"
proof -
  have "closed (cells h2) {free h..<free h1}"
    using assms by (auto simp: extends_def intro: closed_agree)
  moreover have "closed (cells h2) {free h1..<free h2}"
    using assms by (simp add: extends_def)
  ultimately have "closed (cells h2) ({free h..<free h1} \<union> {free h1..<free h2})"
    by (rule closed_Un)
  moreover have "{free h..<free h1} \<union> {free h1..<free h2} = {free h..<free h2}"
    using assms by (auto simp: extends_def)
  ultimately show ?thesis using assms by (auto simp: extends_def)
qed

lemma clone_effect:
  assumes "clone d a h = (r, h')"
  shows "extends h h'"
    and "r = Inr c \<Longrightarrow> free h \<le> c \<and> c < free h' \<and>
           (\<exists>j. stringify d (cells h) [] a = Inr j \<and> stringify d (cells h') [] c = Inr j)"
proof -
  show "extends h h'"
  proof (cases "stringify d (cells h) [] a")
    case (Inl e)
    with assms show ?thesis by (simp add: clone_def extends_refl)
  next
    case (Inr j)
    with assms obtain c where p: "parse j h = (c, h')"
      by (auto simp: clone_def split: prod.splits)
    from parse_trees(1) [OF p] show ?thesis
      by (auto simp: extends_def dest: shape_closed)
  qed
  assume r: "r = Inr c"
  with assms obtain j where j: "stringify d (cells h) [] a = Inr j" and p: "parse j h = (c, h')"
    by (auto simp: clone_def split: sum.splits prod.splits)
  from parse_trees(1) [OF p] obtain t where t: "node t = c" "shape (cells h') t"
    "distinct (nodes t)" "set (nodes t) = {free h..<free h'}" "json_of (cells h') t = j"
    by blast
  have "height t \<le> d" using stringify_height [OF j] t(5) height_json_of by metis
  with t have "stringify d (cells h') [] (node t) = Inr (json_of (cells h') t)"
    by (intro stringify_tree) auto
  moreover have "c \<in> {free h..<free h'}" using t(1,4) node_in_nodes by metis
  ultimately show "free h \<le> c \<and> c < free h' \<and>
           (\<exists>j. stringify d (cells h) [] a = Inr j \<and> stringify d (cells h') [] c = Inr j)"
    using j t(1,5) by auto
qed

lemma extends_stringify:
  assumes "extends h1 h2" and "closed (cells h1) R" and "R \<subseteq> {..<free h1}" and "a \<in> R"
  shows "stringify d (cells h2) stk a = stringify d (cells h1) stk a"
  using assms by (intro stringify_agree [of _ R]) (auto simp: extends_def)

lemma createUndoData_effect:
  assumes "createUndoData d cur emp spv h = (r, h')"
  shows "extends h h'"
    and "r = Inr ud \<Longrightarrow> (\<forall>a\<in>set ud. free h \<le> a \<and> a < free h') \<and>
           (\<exists>c0 rest j. ud = c0 # rest \<and> stringify d (cells h) [] cur = Inr j
               \<and> stringify d (cells h') [] c0 = Inr j)"
proof -
  show "extends h h'"
    using assms
    by (auto simp: createUndoData_def split: sum.splits prod.splits option.splits
             dest!: clone_effect(1) intro: extends_refl extends_trans)
  assume r: "r = Inr ud"
  from assms r obtain c0 h1 where
    c0: "clone d cur h = (Inr c0, h1)"
    by (auto simp: createUndoData_def split: sum.splits prod.splits)
  note e0 = clone_effect [OF c0]
  from assms r obtain cs where cs:
    "findEmployeeSupervisor d (cells h) cur (uniqueId (cells h emp)) = Inr cs"
    by (auto simp: createUndoData_def split: sum.splits)
  have "\<exists>ps h2. extends h1 h2 \<and> (\<forall>a\<in>set ps. free h1 \<le> a \<and> a < free h2) \<and>
          (\<exists>c2 h3 c3. clone d emp h2 = (Inr c2, h3) \<and> clone d spv h3 = (Inr c3, h')
               \<and> ud = [c0] @ ps @ [c2, c3])"
  proof (cases cs)
    case None
    with assms r c0 cs have "\<exists>c2 h3 c3. clone d emp h1 = (Inr c2, h3)
        \<and> clone d spv h3 = (Inr c3, h') \<and> ud = [c0] @ [] @ [c2, c3]"
      by (auto simp: createUndoData_def split: sum.splits prod.splits)
    then show ?thesis using extends_refl [of h1] by (intro exI [of _ "[]"] exI [of _ h1]) simp
  next
    case (Some p)
    with assms r c0 cs obtain c1 h2 where c1: "clone d p h1 = (Inr c1, h2)"
      and "\<exists>c2 h3 c3. clone d emp h2 = (Inr c2, h3)
        \<and> clone d spv h3 = (Inr c3, h') \<and> ud = [c0] @ [c1] @ [c2, c3]"
      by (auto simp: createUndoData_def split: sum.splits prod.splits)
    then show ?thesis using clone_effect [OF c1]
      by (intro exI [of _ "[c1]"] exI [of _ h2]) simp
  qed
  then obtain ps h2 where
    ps: "extends h1 h2" "\<forall>a\<in>set ps. free h1 \<le> a \<and> a < free h2"
    and rest: "\<exists>c2 h3 c3. clone d emp h2 = (Inr c2, h3) \<and> clone d spv h3 = (Inr c3, h')
               \<and> ud = [c0] @ ps @ [c2, c3]"
    by blast
  from rest obtain c2 h3 c3 where c2: "clone d emp h2 = (Inr c2, h3)"
    and c3: "clone d spv h3 = (Inr c3, h')" and ud: "ud = [c0] @ ps @ [c2, c3]"
    by blast
  note e2 = clone_effect [OF c2] and e3 = clone_effect [OF c3]
  have x13: "extends h1 h'" using ps(1) e2(1) e3(1) extends_trans by blast
  from e0(2) obtain j where j: "stringify d (cells h) [] cur = Inr j"
    "stringify d (cells h1) [] c0 = Inr j" and c0r: "free h \<le> c0" "c0 < free h1"
    by blast
  have "stringify d (cells h') [] c0 = stringify d (cells h1) [] c0"
    using x13 e0(1) c0r
    by (intro extends_stringify [of h1 h' "{free h..<free h1}"]) (auto simp: extends_def)
  with j have "\<exists>c0 rest j. ud = c0 # rest \<and> stringify d (cells h) [] cur = Inr j
               \<and> stringify d (cells h') [] c0 = Inr j"
    using ud by simp
  moreover have "\<forall>a\<in>set ud. free h \<le> a \<and> a < free h'"
    using ud c0r ps e0(1) e2 e3 by (fastforce simp: extends_def)
  ultimately show "(\<forall>a\<in>set ud. free h \<le> a \<and> a < free h') \<and>
           (\<exists>c0 rest j. ud = c0 # rest \<and> stringify d (cells h) [] cur = Inr j
               \<and> stringify d (cells h') [] c0 = Inr j)"
    by blast
qed


lemma move_fields:
  "ceo (snd (move d s i j)) = ceo s"
  "current (snd (move d s i j)) = current s"
  "redoStack (snd (move d s i j)) = redoStack s"
  by (simp_all add: move_def Let_def split: option.splits sum.splits prod.splits)

lemma move_Return:
  assumes "move d s i j = (Return, s')"
  shows "\<exists>cur emp spv ud h1 cs. current s = Some cur
       \<and> findEmployee d (cells (heap s)) cur i = Inr (Some emp)
       \<and> findEmployee d (cells (heap s)) cur j = Inr (Some spv)
       \<and> createUndoData d cur emp spv (heap s) = (Inr ud, h1)
       \<and> findEmployeeSupervisor d (cells h1) cur i = Inr cs
       \<and> s' = s\<lparr>heap := push_subordinate spv emp (remove_subordinate cs i h1),
                 history := history s @ [\<lparr>move_tag = ''move'', undoData = ud\<rparr>]\<rparr>"
  using assms
  by (auto simp: move_def Let_def split: option.splits sum.splits prod.splits)

lemma move_Throw:
  assumes "move d s i j = (Throw e, s')"
  shows "s' = s \<or>
    (\<exists>cur emp spv u h1. current s = Some cur
       \<and> findEmployee d (cells (heap s)) cur i = Inr (Some emp)
       \<and> findEmployee d (cells (heap s)) cur j = Inr (Some spv)
       \<and> createUndoData d cur emp spv (heap s) = (u, h1)
       \<and> (s' = s\<lparr>heap := h1\<rparr> \<or>
            (\<exists>ud. u = Inr ud \<and>
               s' = s\<lparr>heap := h1,
                     history := history s @ [\<lparr>move_tag = ''move'', undoData = ud\<rparr>]\<rparr>)))"
  using assms
  by (simp add: move_def Let_def split: option.splits sum.splits prod.splits)

section \<open>The concrete chart\<close>

lemma example_app_ok: "new_app 5 example_heap 3 = Inr example_app"
  unfolding example_app_def
  by (rule sum.collapse(2)[symmetric]) code_simp

section \<open>Unknown identifiers\<close>

text \<open>
  C1: when the employee's or the supervisor's identifier does not resolve through
  \<open>findEmployee\<close> on the live tree, \<open>move\<close> throws the not-found error and the
  whole state (store, live root, undo stack, redo stack) is the one before the call.
\<close>

theorem move_not_found:
  assumes "current s = Some cur"
    and "findEmployee d (cells (heap s)) cur employeeID = Inr None
         \<or> findEmployee d (cells (heap s)) cur supervisorID = Inr None"
  shows "move d s employeeID supervisorID = (Throw EntityNotFound, s)"
proof -
  from assms(2) show ?thesis
  proof
    assume e: "findEmployee d (cells (heap s)) cur employeeID = Inr None"
    then have "\<And>x. findEmployee d (cells (heap s)) cur supervisorID \<noteq> Inl x"
      by (rule findEmployee_None_total)
    then obtain r where "findEmployee d (cells (heap s)) cur supervisorID = Inr r"
      by (cases "findEmployee d (cells (heap s)) cur supervisorID") auto
    with e assms(1) show ?thesis by (simp add: move_def)
  next
    assume p: "findEmployee d (cells (heap s)) cur supervisorID = Inr None"
    then have "\<And>x. findEmployee d (cells (heap s)) cur employeeID \<noteq> Inl x"
      by (rule findEmployee_None_total)
    then obtain r where "findEmployee d (cells (heap s)) cur employeeID = Inr r"
      by (cases "findEmployee d (cells (heap s)) cur employeeID") auto
    with p assms(1) show ?thesis by (simp add: move_def split: option.splits)
  qed
qed

theorem move_not_found_witness:
  "current example_app = Some 7
   \<and> findEmployee 5 (cells (heap example_app)) 7 9 = Inr None
   \<and> move 5 example_app 9 2 = (Throw EntityNotFound, example_app)
   \<and> move 5 example_app 2 9 = (Throw EntityNotFound, example_app)"
proof -
  have c: "current example_app = Some 7" by code_simp
  have n: "findEmployee 5 (cells (heap example_app)) 7 9 = Inr None" by code_simp
  show ?thesis
    using move_not_found [OF c, of 5 9 2] move_not_found [OF c, of 5 2 9] c n by simp
qed

section \<open>The redo stack\<close>

lemma redoStack_move: "redoStack (snd (move d s e p)) = redoStack s"
  by (simp add: move_def Let_def split: option.splits sum.splits prod.splits)

lemma redoStack_undo: "redoStack (undo s) = redoStack s"
  by (simp add: undo_def Let_def)

lemma redo_empty: "redoStack s = [] \<Longrightarrow> redo s = s"
  by (simp add: redo_def)

lemma redoStack_reachable:
  assumes "reachable s0 s" and "redoStack s0 = []"
  shows "redoStack s = []"
  using assms
  by (induction rule: reachable.induct)
     (simp_all add: redoStack_move redoStack_undo redo_empty)

lemma redoStack_new_app: "new_app d h c = Inr s0 \<Longrightarrow> redoStack s0 = []"
  by (auto simp: new_app_def split: prod.splits sum.splits)

text \<open>
  C4: in every state reachable from a constructed chart the redo stack is empty, and
  \<open>redo\<close> leaves the whole state (store, live root, both stacks) as it is.
\<close>

theorem redo_is_noop:
  assumes "new_app d h c = Inr s0" and "reachable s0 s"
  shows "redoStack s = [] \<and> redo s = s"
  using assms redoStack_reachable redoStack_new_app redo_empty by blast

theorem redo_is_noop_witness:
  "new_app 5 example_heap 3 = Inr example_app
   \<and> redoStack (undo (snd (move 5 example_app 2 3))) = []
   \<and> redo (undo (snd (move 5 example_app 2 3))) = undo (snd (move 5 example_app 2 3))"
proof -
  have "reachable example_app (undo (snd (move 5 example_app 2 3)))"
    by (intro reachable.intros)
  with example_app_ok show ?thesis
    using redo_is_noop [of 5 example_heap 3 example_app] by blast
qed

section \<open>The state stays in its region\<close>

lemma relink_free [simp]:
  "free (push_subordinate spv emp h) = free h"
  "free (remove_subordinate cs i h) = free h"
  by (simp_all add: push_subordinate_def remove_subordinate_def set_subordinates_def
        split: option.splits)

lemma remove_subordinate_cells:
  "cells (remove_subordinate cs i h) b =
     (if cs = Some b
      then (cells h b)\<lparr>subordinates :=
             filter (\<lambda>sub. uniqueId (cells h sub) \<noteq> i) (subordinates (cells h b))\<rparr>
      else cells h b)"
  by (auto simp: remove_subordinate_def set_subordinates_def split: option.splits)

lemma push_subordinate_cells:
  "cells (push_subordinate spv emp h) b =
     (if b = spv then (cells h b)\<lparr>subordinates := subordinates (cells h b) @ [emp]\<rparr>
      else cells h b)"
  by (simp add: push_subordinate_def set_subordinates_def)

lemma relink_closed:
  assumes "closed (cells h) R" and "spv \<in> R \<Longrightarrow> emp \<in> R"
  shows "closed (cells (push_subordinate spv emp (remove_subordinate cs i h))) R"
  using assms
  by (auto simp: closed_def push_subordinate_cells remove_subordinate_cells)

lemma relink_other:
  "cs \<noteq> Some b \<Longrightarrow> b \<noteq> spv \<Longrightarrow>
   cells (push_subordinate spv emp (remove_subordinate cs i h)) b = cells h b"
  by (simp add: push_subordinate_cells remove_subordinate_cells)

lemma extends_closed_from:
  assumes "extends h h1" and "n \<le> free h" and "closed (cells h) {n..<free h}"
  shows "closed (cells h1) {n..<free h1}"
proof -
  have "closed (cells h1) {n..<free h}"
    using assms by (auto simp: extends_def intro: closed_agree)
  moreover have "closed (cells h1) {free h..<free h1}" using assms by (simp add: extends_def)
  ultimately have "closed (cells h1) ({n..<free h} \<union> {free h..<free h1})"
    by (rule closed_Un)
  moreover have "{n..<free h} \<union> {free h..<free h1} = {n..<free h1}"
    using assms by (auto simp: extends_def)
  ultimately show ?thesis by simp
qed

lemma region_ok_extend:
  assumes "region_ok n s" and "extends (heap s) h1"
  shows "region_ok n (s\<lparr>heap := h1\<rparr>)"
  using assms extends_closed_from [of "heap s" h1 n]
  by (fastforce simp: region_ok_def extends_def)

text \<open>What a returning \<open>move\<close> found and did, in a state that is in order.\<close>

lemma move_Return_region:
  assumes ok: "region_ok n s" and mv: "move d s i j = (Return, s')"
  shows "\<exists>cur emp spv ud h1 cs. current s = Some cur
       \<and> findEmployee d (cells (heap s)) cur i = Inr (Some emp)
       \<and> findEmployee d (cells (heap s)) cur j = Inr (Some spv)
       \<and> findEmployeeSupervisor d (cells (heap s)) cur i = Inr cs
       \<and> createUndoData d cur emp spv (heap s) = (Inr ud, h1)
       \<and> extends (heap s) h1
       \<and> emp \<in> {n..<free (heap s)} \<and> spv \<in> {n..<free (heap s)}
       \<and> (\<forall>c. cs = Some c \<longrightarrow> c \<in> {n..<free (heap s)})
       \<and> s' = s\<lparr>heap := push_subordinate spv emp (remove_subordinate cs i h1),
                 history := history s @ [\<lparr>move_tag = ''move'', undoData = ud\<rparr>]\<rparr>"
proof -
  from move_Return [OF mv] obtain cur emp spv ud h1 cs where
    a: "current s = Some cur"
    "findEmployee d (cells (heap s)) cur i = Inr (Some emp)"
    "findEmployee d (cells (heap s)) cur j = Inr (Some spv)"
    "createUndoData d cur emp spv (heap s) = (Inr ud, h1)"
    "findEmployeeSupervisor d (cells h1) cur i = Inr cs"
    "s' = s\<lparr>heap := push_subordinate spv emp (remove_subordinate cs i h1),
                 history := history s @ [\<lparr>move_tag = ''move'', undoData = ud\<rparr>]\<rparr>"
    by blast
  let ?R = "{n..<free (heap s)}"
  from ok a(1) have cl: "closed (cells (heap s)) ?R" and cur: "cur \<in> ?R"
    by (auto simp: region_ok_def)
  note x = createUndoData_effect(1) [OF a(4)]
  have "findEmployeeSupervisor d (cells h1) cur i
        = findEmployeeSupervisor d (cells (heap s)) cur i"
    using cl cur x by (intro findEmployeeSupervisor_agree [of _ ?R]) (auto simp: extends_def)
  with a(5) have cs: "findEmployeeSupervisor d (cells (heap s)) cur i = Inr cs" by simp
  have "emp \<in> ?R" "spv \<in> ?R"
    using findEmployee_in_region [OF cl cur] a(2,3) by blast+
  moreover have "\<forall>c. cs = Some c \<longrightarrow> c \<in> ?R"
    using findEmployeeSupervisor_in_region [OF cl cur] cs by blast
  ultimately show ?thesis using a cs x by blast
qed

lemma region_ok_move:
  assumes ok: "region_ok n s"
  shows "region_ok n (snd (move d s i j))
         \<and> (\<forall>b<n. cells (heap (snd (move d s i j))) b = cells (heap s) b)"
proof (cases "move d s i j")
  case (Pair r s')
  show ?thesis
  proof (cases r)
    case Return
    with Pair have mv: "move d s i j = (Return, s')" by simp
    from move_Return_region [OF ok mv] obtain cur emp spv ud h1 cs where
      x: "extends (heap s) h1"
      and ud: "createUndoData d cur emp spv (heap s) = (Inr ud, h1)"
      and r: "emp \<in> {n..<free (heap s)}" "spv \<in> {n..<free (heap s)}"
        "\<forall>c. cs = Some c \<longrightarrow> c \<in> {n..<free (heap s)}"
      and s': "s' = s\<lparr>heap := push_subordinate spv emp (remove_subordinate cs i h1),
                 history := history s @ [\<lparr>move_tag = ''move'', undoData = ud\<rparr>]\<rparr>"
      by blast
    let ?h3 = "push_subordinate spv emp (remove_subordinate cs i h1)"
    from ok have n: "n \<le> free (heap s)" and cl: "closed (cells (heap s)) {n..<free (heap s)}"
      by (auto simp: region_ok_def)
    have cl1: "closed (cells h1) {n..<free h1}" by (rule extends_closed_from [OF x n cl])
    have le: "free (heap s) \<le> free h1" using x by (simp add: extends_def)
    have "closed (cells ?h3) {n..<free h1}"
      using cl1 r le by (intro relink_closed) auto
    moreover have "\<forall>a\<in>set ud. n \<le> a \<and> a < free h1"
      using createUndoData_effect(2) [OF ud refl] n by fastforce
    moreover have "\<forall>b<n. cells ?h3 b = cells (heap s) b"
    proof (intro allI impI)
      fix b assume b: "b < n"
      with r have "cs \<noteq> Some b" "b \<noteq> spv" by auto
      then have "cells ?h3 b = cells h1 b" by (rule relink_other)
      with b n x show "cells ?h3 b = cells (heap s) b" by (simp add: extends_def)
    qed
    ultimately show ?thesis using ok s' Pair le
      by (fastforce simp: region_ok_def)
  next
    case (Throw e)
    with Pair have mv: "move d s i j = (Throw e, s')" by simp
    from move_Throw [OF mv] consider "s' = s"
      | cur emp spv u h1 where "createUndoData d cur emp spv (heap s) = (u, h1)"
          "s' = s\<lparr>heap := h1\<rparr>"
      | cur emp spv ud h1 where "createUndoData d cur emp spv (heap s) = (Inr ud, h1)"
          "s' = s\<lparr>heap := h1,
                     history := history s @ [\<lparr>move_tag = ''move'', undoData = ud\<rparr>]\<rparr>"
      by blast
    then show ?thesis
    proof cases
      case 1
      with ok Pair show ?thesis by simp
    next
      case 2
      note x = createUndoData_effect(1) [OF 2(1)]
      from region_ok_extend [OF ok x] 2(2) Pair x ok show ?thesis
        by (auto simp: extends_def region_ok_def)
    next
      case 3
      note x = createUndoData_effect(1) [OF 3(1)]
      have "\<forall>a\<in>set ud. n \<le> a \<and> a < free h1"
        using createUndoData_effect(2) [OF 3(1) refl] ok by (fastforce simp: region_ok_def)
      with region_ok_extend [OF ok x] 3(2) Pair x ok show ?thesis
        by (auto simp: extends_def region_ok_def)
    qed
  qed
qed

lemma at_index_mem: "at_index xs k = Some x \<Longrightarrow> x \<in> set xs"
  by (auto simp: at_index_def split: if_splits)

lemma region_ok_undo:
  assumes "region_ok n s"
  shows "region_ok n (undo s)"
proof (cases "history s = []")
  case True
  with assms show ?thesis by (simp add: undo_def)
next
  case False
  then have l: "last (history s) \<in> set (history s)" by simp
  have "\<And>c. at_index (undoData (last (history s))) 0 = Some c
          \<Longrightarrow> n \<le> c \<and> c < free (heap s)"
    using assms l by (auto simp: region_ok_def dest!: at_index_mem)
  with assms False show ?thesis
    by (auto simp: region_ok_def undo_def Let_def dest: in_set_butlastD)
qed

lemma heap_undo [simp]: "heap (undo s) = heap s"
  by (simp add: undo_def Let_def)

lemma ceo_undo [simp]: "ceo (undo s) = ceo s"
  by (simp add: undo_def Let_def)

lemma region_ok_new_app:
  assumes "new_app d h c = Inr s0"
  shows "region_ok (free h) s0 \<and> ceo s0 = c \<and> (\<forall>b<free h. cells (heap s0) b = cells h b)"
proof -
  from assms obtain cur h1 where c: "clone d c h = (Inr cur, h1)"
    and s0: "s0 = \<lparr>heap = h1, ceo = c, history = [], current = Some cur, redoStack = []\<rparr>"
    by (auto simp: new_app_def split: prod.splits sum.splits)
  from clone_effect [OF c] s0 show ?thesis
    by (auto simp: region_ok_def extends_def)
qed

lemma reachable_invariant:
  assumes "new_app d h c = Inr s0" and "reachable s0 s"
  shows "region_ok (free h) s \<and> ceo s = c \<and> (\<forall>b<free h. cells (heap s) b = cells h b)"
  using assms(2)
proof (induction rule: reachable.induct)
  case reach_init
  from region_ok_new_app [OF assms(1)] show ?case .
next
  case (reach_move s d' i j)
  with region_ok_move [of "free h" s d' i j] show ?case
    by (simp add: move_fields)
next
  case (reach_undo s)
  then show ?case by (simp add: region_ok_undo)
next
  case (reach_redo s)
  then have "redo s = s" by (simp add: region_ok_def redo_empty)
  with reach_redo show ?case by simp
qed


section \<open>The constructor's argument and the \<open>ceo\<close> field\<close>

lemma heap_ok_example: "heap_ok example_heap"
  by code_simp

lemma original_serialises:
  assumes "new_app d h c = Inr s0" and "reachable s0 s" and "heap_ok h" and "c < free h"
  shows "stringify d' (cells (heap s)) [] c = stringify d' (cells h) [] c"
  using assms(3,4) reachable_invariant [OF assms(1,2)]
  by (intro stringify_agree [of _ "{..<free h}"]) (auto simp: heap_ok_def)

text \<open>
  C9: through any sequence of \<open>move\<close>, \<open>undo\<close> and \<open>redo\<close> the \<open>ceo\<close> field keeps
  the reference the constructor was given, and no object that existed when the
  constructor ran is ever written: the live copy and the snapshots are objects allocated
  later. So the original tree reads, at any depth, as it did at construction time.
\<close>

theorem original_never_mutated:
  assumes "new_app d h c = Inr s0" and "reachable s0 s"
  shows "ceo s = c \<and> (\<forall>b<free h. cells (heap s) b = cells h b)
         \<and> (heap_ok h \<longrightarrow> c < free h \<longrightarrow>
              (\<forall>d'. stringify d' (cells (heap s)) [] (ceo s) = stringify d' (cells h) [] c))"
  using reachable_invariant [OF assms] original_serialises [OF assms] by simp

theorem original_never_mutated_witness:
  "new_app 5 example_heap 3 = Inr example_app
   \<and> ceo (undo (snd (move 5 example_app 2 3))) = 3
   \<and> cells (heap (snd (move 5 example_app 2 3))) 3 = cells example_heap 3
   \<and> heap_ok example_heap
   \<and> stringify 5 (cells (heap (snd (move 5 example_app 2 3)))) []
         (ceo (snd (move 5 example_app 2 3)))
       = Inr (JObj 1 ''CEO'' [JObj 2 ''A'' [JObj 4 ''C'' []], JObj 3 ''B'' []])"
proof -
  have r1: "reachable example_app (snd (move 5 example_app 2 3))"
    and r2: "reachable example_app (undo (snd (move 5 example_app 2 3)))"
    by (intro reachable.intros)+
  have f: "(3::nat) < free example_heap" by (simp add: example_heap_def)
  have v: "stringify 5 (cells example_heap) [] 3
           = Inr (JObj 1 ''CEO'' [JObj 2 ''A'' [JObj 4 ''C'' []], JObj 3 ''B'' []])"
    by code_simp
  show ?thesis
    using original_never_mutated [OF example_app_ok r1]
      original_never_mutated [OF example_app_ok r2] heap_ok_example f v example_app_ok
    by simp
qed

text \<open>
  C5 as stated fails: \<open>ceo\<close> is the constructor's argument, and the live tree is a
  private copy of it. After \<open>move(2, 3)\<close> on the example chart the live tree has A under
  B, and \<open>ceo\<close> still reads as the chart that was passed in.
\<close>

theorem ceo_is_not_live_tree:
  "fst (move 5 example_app 2 3) = Return
   \<and> ceo (snd (move 5 example_app 2 3)) = 3
   \<and> current (snd (move 5 example_app 2 3)) = Some 7
   \<and> stringify 5 (cells (heap (snd (move 5 example_app 2 3)))) [] 3
       = Inr (JObj 1 ''CEO'' [JObj 2 ''A'' [JObj 4 ''C'' []], JObj 3 ''B'' []])
   \<and> stringify 5 (cells (heap (snd (move 5 example_app 2 3)))) [] 7
       = Inr (JObj 1 ''CEO'' [JObj 3 ''B'' [JObj 2 ''A'' [JObj 4 ''C'' []]]])"
  by code_simp

text \<open>
  C5, amended: in every reachable state the \<open>ceo\<close> field is the reference the
  constructor was given, and what it reads is deep-equal to the live tree as the
  constructor built it (the initial live tree), whatever has been moved since.
\<close>

theorem ceo_reads_initial_tree:
  assumes "new_app d h c = Inr s0" and "heap_ok h" and "c < free h" and "reachable s0 s"
  shows "ceo s = c \<and>
         (\<exists>cur0 T0. current s0 = Some cur0
            \<and> stringify d (cells (heap s0)) [] cur0 = Inr T0
            \<and> stringify d (cells (heap s)) [] (ceo s) = Inr T0)"
proof -
  from assms(1) obtain cur h1 where c: "clone d c h = (Inr cur, h1)"
    and s0: "s0 = \<lparr>heap = h1, ceo = c, history = [], current = Some cur, redoStack = []\<rparr>"
    by (auto simp: new_app_def split: prod.splits sum.splits)
  from clone_effect(2) [OF c refl] obtain j where j: "stringify d (cells h) [] c = Inr j"
    "stringify d (cells h1) [] cur = Inr j"
    by blast
  from reachable_invariant [OF assms(1,4)] original_serialises [OF assms(1,4,2,3), of d] j(1)
  have "ceo s = c" "stringify d (cells (heap s)) [] (ceo s) = Inr j" by auto
  with j(2) s0 show ?thesis by simp
qed

theorem ceo_reads_initial_tree_witness:
  "new_app 5 example_heap 3 = Inr example_app \<and> heap_ok example_heap
   \<and> ceo (snd (move 5 example_app 2 3)) = 3
   \<and> (\<exists>cur0 T0. current example_app = Some cur0
          \<and> stringify 5 (cells (heap example_app)) [] cur0 = Inr T0
          \<and> stringify 5 (cells (heap (snd (move 5 example_app 2 3)))) []
                (ceo (snd (move 5 example_app 2 3))) = Inr T0)"
proof -
  have r: "reachable example_app (snd (move 5 example_app 2 3))"
    by (intro reachable.intros)
  have f: "(3::nat) < free example_heap" by (simp add: example_heap_def)
  show ?thesis
    using ceo_reads_initial_tree [OF example_app_ok heap_ok_example f r]
      example_app_ok heap_ok_example
    by blast
qed

section \<open>Undo\<close>

text \<open>
  C2: in any state of a constructed chart, when \<open>move\<close> returns, \<open>undo\<close> right after it
  makes the first snapshot of the record the live root, and that snapshot serialises to
  the same value \<open>T0\<close> as the live tree did before the move; the undo stack is back to
  what it was and the redo stack is untouched.
\<close>

theorem undo_restores_tree:
  assumes "new_app d0 h c = Inr s0" and "reachable s0 s"
    and mv: "move d s i j = (Return, s')"
  shows "\<exists>cur cur' T0. current s = Some cur
           \<and> stringify d (cells (heap s)) [] cur = Inr T0
           \<and> current (undo s') = Some cur'
           \<and> stringify d (cells (heap (undo s'))) [] cur' = Inr T0
           \<and> history (undo s') = history s
           \<and> redoStack (undo s') = redoStack s"
proof -
  from reachable_invariant [OF assms(1,2)] have ok: "region_ok (free h) s" by simp
  let ?n = "free h"
  from move_Return_region [OF ok mv] obtain cur emp spv ud h1 cs where
    cur: "current s = Some cur"
    and ud: "createUndoData d cur emp spv (heap s) = (Inr ud, h1)"
    and x: "extends (heap s) h1"
    and r: "spv \<in> {?n..<free (heap s)}" "\<forall>c. cs = Some c \<longrightarrow> c \<in> {?n..<free (heap s)}"
    and s': "s' = s\<lparr>heap := push_subordinate spv emp (remove_subordinate cs i h1),
                 history := history s @ [\<lparr>move_tag = ''move'', undoData = ud\<rparr>]\<rparr>"
    by blast
  let ?h3 = "push_subordinate spv emp (remove_subordinate cs i h1)"
  from createUndoData_effect(2) [OF ud refl] obtain c0 rest T0 where
    c0: "ud = c0 # rest" "stringify d (cells (heap s)) [] cur = Inr T0"
      "stringify d (cells h1) [] c0 = Inr T0"
    and fresh: "free (heap s) \<le> c0" "c0 < free h1"
    by auto
  have "stringify d (cells ?h3) [] c0 = stringify d (cells h1) [] c0"
  proof (rule stringify_agree [of _ "{free (heap s)..<free h1}"])
    show "closed (cells h1) {free (heap s)..<free h1}" using x by (simp add: extends_def)
    show "c0 \<in> {free (heap s)..<free h1}" using fresh by simp
    fix b assume "b \<in> {free (heap s)..<free h1}"
    with r have "cs \<noteq> Some b" "b \<noteq> spv" by auto
    then show "cells ?h3 b = cells h1 b" by (rule relink_other)
  qed
  with c0 cur s' show ?thesis
    by (simp add: undo_def Let_def at_index_def)
qed

theorem undo_restores_tree_witness:
  "new_app 5 example_heap 3 = Inr example_app
   \<and> move 5 example_app 2 3 = (Return, snd (move 5 example_app 2 3))
   \<and> (\<exists>cur cur' T0. current example_app = Some cur
           \<and> stringify 5 (cells (heap example_app)) [] cur = Inr T0
           \<and> current (undo (snd (move 5 example_app 2 3))) = Some cur'
           \<and> stringify 5 (cells (heap (undo (snd (move 5 example_app 2 3))))) [] cur' = Inr T0
           \<and> history (undo (snd (move 5 example_app 2 3))) = history example_app
           \<and> redoStack (undo (snd (move 5 example_app 2 3))) = redoStack example_app)"
proof -
  have "fst (move 5 example_app 2 3) = Return" by code_simp
  then have m: "move 5 example_app 2 3 = (Return, snd (move 5 example_app 2 3))"
    by (metis prod.collapse)
  show ?thesis
    using undo_restores_tree [OF example_app_ok reach_init m] example_app_ok m by simp
qed


section \<open>Searching a tree\<close>

lemma find_append:
  "List.find P (xs @ ys) = (case List.find P xs of None \<Rightarrow> List.find P ys | Some x \<Rightarrow> Some x)"
  by (induction xs) auto

lemma nodes_eq: "nodes t = node t # concat (map nodes (kids t))"
  by (cases t) simp

lemma tl_nodes: "tl (nodes t) = concat (map nodes (kids t))"
  by (cases t) simp

lemma height_pos: "height t \<le> d \<Longrightarrow> \<exists>d'. d = Suc d'"
  by (cases t; cases d) auto

lemma first_found_find:
  assumes "\<And>k. k \<in> set ts \<Longrightarrow> f (node k) = Inr (List.find P (nodes k))"
  shows "first_found f (map node ts) = Inr (List.find P (concat (map nodes ts)))"
  using assms
  by (induction ts) (auto simp: find_append split: option.splits)

text \<open>On a tree, \<open>findEmployee\<close> returns the first node in pre-order with the identifier.\<close>

lemma findEmployee_tree:
  "shape h t \<Longrightarrow> height t \<le> d
   \<Longrightarrow> findEmployee d h (node t) i = Inr (List.find (\<lambda>a. uniqueId (h a) = i) (nodes t))"
proof (induction t arbitrary: d)
  case (ANode a ts)
  from height_pos [OF ANode.prems(2)] obtain d' where d: "d = Suc d'" by blast
  have "first_found (\<lambda>s. findEmployee d' h s i) (map node ts)
        = Inr (List.find (\<lambda>a. uniqueId (h a) = i) (concat (map nodes ts)))"
  proof (rule first_found_find)
    fix k assume k: "k \<in> set ts"
    with ANode.prems d have "shape h k" "height k \<le> d'" by auto
    with ANode.IH [OF k] show
      "findEmployee d' h (node k) i = Inr (List.find (\<lambda>a. uniqueId (h a) = i) (nodes k))"
      by blast
  qed
  with ANode.prems(1) d show ?case by simp
qed

text \<open>
  What \<open>findEmployeeSupervisor\<close> returns on a tree: an owner of the first node below
  the root, in pre-order, that has the identifier.
\<close>

lemma sup_result_loop:
  assumes "\<And>k. k \<in> set ts \<Longrightarrow>
             sup_result h i (tl (nodes k)) (nodes k) (g (node k))"
  shows "case List.find (\<lambda>a. uniqueId (h a) = i) (concat (map nodes ts)) of
           None \<Rightarrow> first_found (\<lambda>s. if uniqueId (h s) = i then Inr (Some a) else g s)
                     (map node ts) = Inr None
         | Some c \<Rightarrow> \<exists>p. first_found (\<lambda>s. if uniqueId (h s) = i then Inr (Some a) else g s)
                           (map node ts) = Inr (Some p)
                  \<and> (p = a \<and> c \<in> node ` set ts
                      \<or> p \<in> set (concat (map nodes ts)) \<and> c \<in> set (subordinates (h p)))"
  using assms
proof (induction ts)
  case Nil
  then show ?case by simp
next
  case (Cons k ks)
  have k: "sup_result h i (tl (nodes k)) (nodes k) (g (node k))" using Cons.prems by simp
  have nk: "nodes k = node k # tl (nodes k)" by (cases k) simp
  show ?case
  proof (cases "uniqueId (h (node k)) = i")
    case True
    then have "List.find (\<lambda>a. uniqueId (h a) = i) (concat (map nodes (k # ks))) = Some (node k)"
      by (subst nk [THEN arg_cong [where f = "\<lambda>x. concat (map nodes (k # ks))"]]; simp add: nodes_eq [of k])
    with True show ?thesis by simp
  next
    case False
    show ?thesis
    proof (cases "List.find (\<lambda>a. uniqueId (h a) = i) (tl (nodes k))")
      case None
      with k have g: "g (node k) = Inr None" by (simp add: sup_result_def)
      have "List.find (\<lambda>a. uniqueId (h a) = i) (concat (map nodes (k # ks)))
            = List.find (\<lambda>a. uniqueId (h a) = i) (concat (map nodes ks))"
        using None False by (simp add: nodes_eq [of k] find_append tl_nodes)
      with Cons.IH Cons.prems g False show ?thesis
        by (auto split: option.splits)
    next
      case (Some c)
      with k obtain p where p: "g (node k) = Inr (Some p)" "p \<in> set (nodes k)"
        "c \<in> set (subordinates (h p))"
        by (auto simp: sup_result_def)
      have "List.find (\<lambda>a. uniqueId (h a) = i) (concat (map nodes (k # ks))) = Some c"
        using Some False by (simp add: nodes_eq [of k] find_append tl_nodes)
      with p False show ?thesis by auto
    qed
  qed
qed

lemma findEmployeeSupervisor_tree:
  "shape h t \<Longrightarrow> height t \<le> d
   \<Longrightarrow> sup_result h i (tl (nodes t)) (nodes t) (findEmployeeSupervisor d h (node t) i)"
proof (induction t arbitrary: d)
  case (ANode a ts)
  from height_pos [OF ANode.prems(2)] obtain d' where d: "d = Suc d'" by blast
  have kids: "sup_result h i (tl (nodes k)) (nodes k) (findEmployeeSupervisor d' h (node k) i)"
    if "k \<in> set ts" for k
    using that ANode.prems d ANode.IH [OF that, of d'] by auto
  note loop = sup_result_loop [of ts h i "\<lambda>s. findEmployeeSupervisor d' h s i" a, OF kids]
  show ?case
  proof (cases "ts = []")
    case True
    with ANode.prems(1) d show ?thesis by (simp add: sup_result_def)
  next
    case False
    with ANode.prems(1) d have eq: "findEmployeeSupervisor d h (node (ANode a ts)) i
      = first_found (\<lambda>s. if uniqueId (h s) = i then Inr (Some a)
                          else findEmployeeSupervisor d' h s i) (map node ts)"
      by simp
    from ANode.prems(1) have subs: "subordinates (h a) = map node ts" by simp
    show ?thesis
      unfolding eq sup_result_def using loop subs
      by (auto split: option.splits)
  qed
qed


lemma children_below:
  "shape h t \<Longrightarrow> p \<in> set (nodes t) \<Longrightarrow> c \<in> set (subordinates (h p))
   \<Longrightarrow> c \<in> set (tl (nodes t))"
proof (induction t)
  case (ANode a ts)
  show ?case
  proof (cases "p = a")
    case True
    with ANode.prems obtain k where "k \<in> set ts" "c = node k" by auto
    then show ?thesis by (auto intro: bexI [of _ k])
  next
    case False
    with ANode.prems obtain k where k: "k \<in> set ts" "p \<in> set (nodes k)" by auto
    with ANode.IH [OF k(1)] ANode.prems have "c \<in> set (tl (nodes k))" by simp
    then have "c \<in> set (nodes k)" by (auto dest: list.set_sel(2) [rotated])
    with k show ?thesis by auto
  qed
qed

lemma distinct_kids_disjoint:
  assumes "distinct (concat (map nodes ts))" and "k \<in> set ts" and "k' \<in> set ts"
    and "x \<in> set (nodes k)" and "x \<in> set (nodes k')"
  shows "nodes k = nodes k'"
proof (rule ccontr)
  assume "nodes k \<noteq> nodes k'"
  with assms(1,2,3) have "set (nodes k) \<inter> set (nodes k') = {}"
    by (simp add: distinct_concat_iff)
  with assms(4,5) show False by auto
qed

lemma tl_nodes_not_node: "distinct (nodes t) \<Longrightarrow> x \<in> set (tl (nodes t)) \<Longrightarrow> x \<noteq> node t"
  by (cases t) auto

lemma node_hd: "node t = hd (nodes t)"
  by (cases t) simp

lemma in_tl_nodes: "x \<in> set (tl (nodes t)) \<Longrightarrow> x \<in> set (nodes t)"
  by (cases t) auto

text \<open>In a tree, an object has one owner.\<close>

lemma unique_parent:
  "shape h t \<Longrightarrow> distinct (nodes t) \<Longrightarrow> p \<in> set (nodes t) \<Longrightarrow> q \<in> set (nodes t)
   \<Longrightarrow> c \<in> set (subordinates (h p)) \<Longrightarrow> c \<in> set (subordinates (h q)) \<Longrightarrow> p = q"
proof (induction t)
  case (ANode a ts)
  have dc: "distinct (concat (map nodes ts))" and an: "a \<notin> set (concat (map nodes ts))"
    using ANode.prems(2) by auto
  have dk: "\<And>k. k \<in> set ts \<Longrightarrow> distinct (nodes k)"
    using dc by (auto simp: distinct_concat_iff)
  have sk: "\<And>k. k \<in> set ts \<Longrightarrow> shape h k" using ANode.prems(1) by simp
  have root_case: False
    if "c \<in> set (subordinates (h a))" and k: "k \<in> set ts" and q: "q \<in> set (nodes k)"
      and cq: "c \<in> set (subordinates (h q))" for q k
  proof -
    from that(1) ANode.prems(1) obtain k' where k': "k' \<in> set ts" "c = node k'" by auto
    have ctl: "c \<in> set (tl (nodes k))" using children_below [OF sk [OF k] q cq] .
    then have "c \<in> set (nodes k)" by (rule in_tl_nodes)
    moreover have "c \<in> set (nodes k')" using k'(2) by simp
    ultimately have "nodes k = nodes k'" using distinct_kids_disjoint [OF dc k k'(1)] by blast
    then have "node k = node k'" using node_hd [of k] node_hd [of k'] by simp
    with tl_nodes_not_node [OF dk [OF k] ctl] k'(2) show False by simp
  qed
  show ?case
  proof (cases "p = a")
    case pa: True
    show ?thesis
    proof (cases "q = a")
      case True
      with pa show ?thesis by simp
    next
      case False
      with ANode.prems(4) obtain k where "k \<in> set ts" "q \<in> set (nodes k)" by auto
      with root_case [of k q] ANode.prems(5,6) pa show ?thesis by blast
    qed
  next
    case pa: False
    with ANode.prems(3) obtain k where k: "k \<in> set ts" "p \<in> set (nodes k)" by auto
    show ?thesis
    proof (cases "q = a")
      case True
      with root_case [of k p] ANode.prems(5,6) k show ?thesis by blast
    next
      case False
      with ANode.prems(4) obtain k' where k': "k' \<in> set ts" "q \<in> set (nodes k')" by auto
      have "c \<in> set (nodes k)" "c \<in> set (nodes k')"
        using children_below [OF sk [OF k(1)] k(2) ANode.prems(5)]
          children_below [OF sk [OF k'(1)] k'(2) ANode.prems(6)]
        by (auto intro: in_tl_nodes)
      then have "nodes k = nodes k'" using distinct_kids_disjoint [OF dc k(1) k'(1)] by blast
      with k' have "q \<in> set (nodes k)" by simp
      with ANode.IH [OF k(1) sk [OF k(1)] dk [OF k(1)] k(2)] ANode.prems(5,6)
      show ?thesis by blast
    qed
  qed
qed

lemma find_unique:
  assumes "x \<in> set xs" and "P x" and "\<And>y. y \<in> set xs \<Longrightarrow> P y \<Longrightarrow> y = x"
  shows "List.find P xs = Some x"
proof (cases "List.find P xs")
  case None
  with assms(1,2) show ?thesis by (simp add: find_None_iff)
next
  case (Some y)
  then have "y \<in> set xs" "P y" by (auto simp: find_Some_iff)
  with assms(3) Some show ?thesis by simp
qed

lemma unique_ids:
  assumes "distinct (ids h t)"
  shows "distinct (nodes t)" and "inj_on (\<lambda>a. uniqueId (h a)) (set (nodes t))"
  using assms by (auto simp: ids_def distinct_map)

lemma findEmployeeSupervisor_spec:
  assumes sh: "shape h t" and di: "distinct (ids h t)" and he: "height t \<le> d"
  shows "findEmployeeSupervisor d h (node t) i = Inr (spec_findSupervisor h t i)"
proof -
  let ?P = "\<lambda>a. uniqueId (h a) = i"
  let ?Q = "\<lambda>p. \<exists>c\<in>set (subordinates (h p)). uniqueId (h c) = i"
  from di have dn: "distinct (nodes t)" and inj: "inj_on (\<lambda>a. uniqueId (h a)) (set (nodes t))"
    by (auto simp: ids_def distinct_map)
  note r = findEmployeeSupervisor_tree [OF sh he, of i, unfolded sup_result_def]
  show ?thesis
  proof (cases "List.find ?P (tl (nodes t))")
    case None
    with r have a: "findEmployeeSupervisor d h (node t) i = Inr None" by simp
    have "\<not> ?Q p" if "p \<in> set (nodes t)" for p
    proof
      assume "?Q p"
      then obtain c where c: "c \<in> set (subordinates (h p))" "?P c" by blast
      with children_below [OF sh that c(1)] None show False by (auto simp: find_None_iff)
    qed
    then have "spec_findSupervisor h t i = None"
      by (auto simp: spec_findSupervisor_def find_None_iff)
    with a show ?thesis by simp
  next
    case (Some c)
    with r obtain p where p: "findEmployeeSupervisor d h (node t) i = Inr (Some p)"
      "p \<in> set (nodes t)" "c \<in> set (subordinates (h p))"
      by auto
    from Some have c: "?P c" "c \<in> set (nodes t)"
      by (auto simp: find_Some_iff intro: in_tl_nodes nth_mem)
    have "List.find ?Q (nodes t) = Some p"
    proof (rule find_unique [OF p(2)])
      show "?Q p" using p(3) c(1) by blast
      fix q assume q: "q \<in> set (nodes t)" "?Q q"
      then obtain c' where c': "c' \<in> set (subordinates (h q))" "?P c'" by blast
      have "c' \<in> set (nodes t)" using children_below [OF sh q(1) c'(1)] by (rule in_tl_nodes)
      with inj c c'(2) have "c' = c" by (auto dest: inj_onD)
      with unique_parent [OF sh dn q(1) p(2) _ p(3)] c'(1) show "q = p" by simp
    qed
    with p(1) show ?thesis by (simp add: spec_findSupervisor_def)
  qed
qed

text \<open>
  C8, amended: on a tree, with the stack its depth needs, \<open>findEmployeeSupervisor\<close>
  returns an owner of the first node below the root, in pre-order, that has the
  identifier, and \<open>null\<close> when no node below the root has it, so also for an identifier
  that does not occur. When the identifiers of the tree are unique, the result is the
  first node in pre-order whose immediate subordinates contain a node with the
  identifier, and it is \<open>null\<close> for the root's identifier.
\<close>

theorem findSupervisor_unique_ids:
  assumes sh: "shape h t" and he: "height t \<le> d"
  shows "sup_result h i (tl (nodes t)) (nodes t) (findEmployeeSupervisor d h (node t) i)
     \<and> (i \<notin> set (ids h t) \<longrightarrow> findEmployeeSupervisor d h (node t) i = Inr None)
     \<and> (distinct (ids h t) \<longrightarrow>
          findEmployeeSupervisor d h (node t) i = Inr (spec_findSupervisor h t i)
          \<and> (uniqueId (h (node t)) = i \<longrightarrow> findEmployeeSupervisor d h (node t) i = Inr None))"
proof -
  note r = findEmployeeSupervisor_tree [OF sh he, of i]
  have none: "findEmployeeSupervisor d h (node t) i = Inr None"
    if "\<And>c. c \<in> set (tl (nodes t)) \<Longrightarrow> uniqueId (h c) \<noteq> i"
  proof -
    from that have "List.find (\<lambda>a. uniqueId (h a) = i) (tl (nodes t)) = None"
      by (auto simp: find_None_iff)
    with r show ?thesis by (simp add: sup_result_def)
  qed
  have a: "findEmployeeSupervisor d h (node t) i = Inr None" if "i \<notin> set (ids h t)"
    using that by (intro none) (auto simp: ids_def dest: in_tl_nodes)
  have b: "findEmployeeSupervisor d h (node t) i = Inr None"
    if di: "distinct (ids h t)" and ri: "uniqueId (h (node t)) = i"
  proof (rule none)
    fix c assume c: "c \<in> set (tl (nodes t))"
    show "uniqueId (h c) \<noteq> i"
    proof
      assume "uniqueId (h c) = i"
      with ri unique_ids(2) [OF di] in_tl_nodes [OF c] have "c = node t"
        by (auto dest: inj_onD)
      with tl_nodes_not_node [OF unique_ids(1) [OF di] c] show False by simp
    qed
  qed
  from r a b findEmployeeSupervisor_spec [OF sh _ he, of i] show ?thesis by blast
qed

theorem findSupervisor_unique_ids_witness:
  "shape (cells (heap example_app)) example_tree
   \<and> distinct (ids (cells (heap example_app)) example_tree)
   \<and> height example_tree \<le> 5
   \<and> findEmployeeSupervisor 5 (cells (heap example_app)) (node example_tree) 4 = Inr (Some 5)
   \<and> spec_findSupervisor (cells (heap example_app)) example_tree 4 = Some 5
   \<and> findEmployeeSupervisor 5 (cells (heap example_app)) (node example_tree) 1 = Inr None
   \<and> findEmployeeSupervisor 5 (cells (heap example_app)) (node example_tree) 9 = Inr None"
proof -
  have sh: "shape (cells (heap example_app)) example_tree" by code_simp
  have di: "distinct (ids (cells (heap example_app)) example_tree)" by code_simp
  have he: "height example_tree \<le> 5" by code_simp
  have sp: "spec_findSupervisor (cells (heap example_app)) example_tree 4 = Some 5" by code_simp
  have r: "uniqueId (cells (heap example_app) (node example_tree)) = 1" by code_simp
  have n: "9 \<notin> set (ids (cells (heap example_app)) example_tree)" by code_simp
  have a: "findEmployeeSupervisor 5 (cells (heap example_app)) (node example_tree) 4
           = Inr (Some 5)"
    using findSupervisor_unique_ids [OF sh he, of 4] di sp by simp
  have b: "findEmployeeSupervisor 5 (cells (heap example_app)) (node example_tree) 1
           = Inr None"
    using findSupervisor_unique_ids [OF sh he, of 1] di r by blast
  have c: "findEmployeeSupervisor 5 (cells (heap example_app)) (node example_tree) 9
           = Inr None"
    using findSupervisor_unique_ids [OF sh he, of 9] n by blast
  from sh di he a sp b c show ?thesis by blast
qed

text \<open>
  C8 as stated fails when identifiers repeat. In the chart CEO(5) [A(2) [C(5)], B(5)]
  the search for 5 returns A, the owner of C, although the first node in pre-order
  whose subordinates contain a 5 is the root, and although 5 is the root's identifier.
\<close>

theorem findSupervisor_duplicate_ids:
  "shape (cells dup_heap) dup_tree \<and> distinct (nodes dup_tree) \<and> height dup_tree \<le> 5
   \<and> uniqueId (cells dup_heap (node dup_tree)) = 5
   \<and> findEmployeeSupervisor 5 (cells dup_heap) (node dup_tree) 5 = Inr (Some 1)
   \<and> spec_findSupervisor (cells dup_heap) dup_tree 5 = Some 3"
  by (simp add: dup_heap_def dup_tree_def spec_findSupervisor_def eval_nat_numeral)


section \<open>Moves on a tree\<close>

lemma nodes_in_closed:
  "closed h R \<Longrightarrow> shape h t \<Longrightarrow> node t \<in> R \<Longrightarrow> set (nodes t) \<subseteq> R"
proof (induction t)
  case (ANode a ts)
  have "set (nodes k) \<subseteq> R" if k: "k \<in> set ts" for k
  proof -
    have "node k \<in> set (subordinates (h a))" using ANode.prems(2) k by simp
    with ANode.prems(1,3) have "node k \<in> R" by (auto dest: closedD)
    with ANode.IH [OF k ANode.prems(1)] ANode.prems(2) k show ?thesis by simp
  qed
  with ANode.prems(3) show ?case by auto
qed

lemma shape_unique:
  "shape h t \<Longrightarrow> shape h u \<Longrightarrow> node t = node u \<Longrightarrow> t = u"
proof (induction t arbitrary: u)
  case (ANode a ts)
  obtain b us where u: "u = ANode b us" by (cases u)
  with ANode.prems have ab: "a = b" and m: "map node ts = map node us"
    and su: "\<forall>k\<in>set us. shape h k" and st: "\<forall>k\<in>set ts. shape h k"
    by auto
  from m have len: "length ts = length us" by (rule map_eq_imp_length_eq)
  have "ts ! n = us ! n" if n: "n < length ts" for n
  proof -
    have "node (ts ! n) = node (us ! n)" using m n len by (metis nth_map)
    moreover have "shape h (ts ! n)" "shape h (us ! n)" using st su n len by auto
    ultimately show ?thesis using ANode.IH [of "ts ! n" "us ! n"] n by simp
  qed
  with len have "ts = us" by (simp add: list_eq_iff_nth_eq)
  with ab u show ?case by simp
qed

lemma subtree_exists:
  "shape h t \<Longrightarrow> c \<in> set (nodes t) \<Longrightarrow>
   \<exists>u. shape h u \<and> node u = c \<and> set (nodes u) \<subseteq> set (nodes t) \<and> height u \<le> height t
       \<and> (distinct (nodes t) \<longrightarrow> distinct (nodes u))"
proof (induction t)
  case (ANode a ts)
  show ?case
  proof (cases "c = a")
    case True
    with ANode.prems(1) show ?thesis by (intro exI [of _ "ANode a ts"]) simp
  next
    case False
    with ANode.prems obtain k where k: "k \<in> set ts" "c \<in> set (nodes k)" by auto
    with ANode.IH [OF k(1)] ANode.prems(1) obtain u where
      u: "shape h u" "node u = c" "set (nodes u) \<subseteq> set (nodes k)" "height u \<le> height k"
        "distinct (nodes k) \<longrightarrow> distinct (nodes u)"
      by auto
    have "height k \<le> height (ANode a ts)" using k(1) by (simp add: le_SucI)
    moreover have "distinct (nodes (ANode a ts)) \<longrightarrow> distinct (nodes k)"
      using k(1) by (auto simp: distinct_concat_iff)
    ultimately show ?thesis using u k(1) by (intro exI [of _ u]) auto
  qed
qed

lemma clone_succeeds:
  assumes "shape (cells h) u" and "distinct (nodes u)" and "height u \<le> d"
  shows "\<exists>c h'. clone d (node u) h = (Inr c, h')"
proof -
  have "stringify d (cells h) [] (node u) = Inr (json_of (cells h) u)"
    using assms by (intro stringify_tree) auto
  then show ?thesis by (simp add: clone_def split: prod.splits)
qed

lemma extends_shape:
  assumes "extends h h'" and "shape (cells h) u" and "set (nodes u) \<subseteq> {..<free h}"
  shows "shape (cells h') u"
  using assms shape_agree [of u "cells h'" "cells h"] by (auto simp: extends_def)

lemma clone_node_succeeds:
  assumes t: "shape (cells h0) t" "distinct (nodes t)" "height t \<le> d"
    "set (nodes t) \<subseteq> {..<free h0}"
    and x: "extends h0 h" and c: "c \<in> set (nodes t)"
  shows "\<exists>c' h'. clone d c h = (Inr c', h') \<and> extends h0 h'"
proof -
  from subtree_exists [OF t(1) c] t(2) obtain u where
    u: "shape (cells h0) u" "node u = c" "set (nodes u) \<subseteq> set (nodes t)"
      "height u \<le> height t" "distinct (nodes u)"
    by blast
  have "shape (cells h) u" using extends_shape [OF x u(1)] u(3) t(4) by blast
  from clone_succeeds [OF this u(5)] u(4) t(3) u(2) obtain c' h' where
    cl: "clone d c h = (Inr c', h')"
    by fastforce
  from clone_effect(1) [OF cl] x have "extends h0 h'" by (rule extends_trans [rotated])
  with cl show ?thesis by blast
qed

lemma sup_result_total:
  "sup_result h i below ns r \<Longrightarrow> \<exists>cs. r = Inr cs \<and> (\<forall>p. cs = Some p \<longrightarrow> p \<in> set ns)"
  by (auto simp: sup_result_def split: option.splits)

lemma createUndoData_succeeds:
  assumes t: "shape (cells h) t" "distinct (nodes t)" "height t \<le> d"
    "set (nodes t) \<subseteq> {..<free h}"
    and e: "emp \<in> set (nodes t)" and s: "spv \<in> set (nodes t)"
  shows "\<exists>ud h'. createUndoData d (node t) emp spv h = (Inr ud, h')"
proof -
  from sup_result_total [OF findEmployeeSupervisor_tree [OF t(1,3)]]
  obtain cs where cs: "findEmployeeSupervisor d (cells h) (node t) (uniqueId (cells h emp)) = Inr cs"
    "\<forall>p. cs = Some p \<longrightarrow> p \<in> set (nodes t)"
    by blast
  from clone_node_succeeds [OF t extends_refl, of "node t"] obtain c0 h1 where
    c0: "clone d (node t) h = (Inr c0, h1)" "extends h h1"
    by auto
  have "\<exists>ps h2. (case cs of None \<Rightarrow> (Inr [], h1)
            | Some p \<Rightarrow> (case clone d p h1 of (Inl e, h2) \<Rightarrow> (Inl e, h2)
                         | (Inr c, h2) \<Rightarrow> (Inr [c], h2))) = (Inr ps, h2) \<and> extends h h2"
  proof (cases cs)
    case None
    with c0(2) show ?thesis by simp
  next
    case (Some p)
    with cs(2) have "p \<in> set (nodes t)" by simp
    from clone_node_succeeds [OF t c0(2) this] Some show ?thesis by auto
  qed
  then obtain ps h2 where ps: "(case cs of None \<Rightarrow> (Inr [], h1)
            | Some p \<Rightarrow> (case clone d p h1 of (Inl e, h2) \<Rightarrow> (Inl e, h2)
                         | (Inr c, h2) \<Rightarrow> (Inr [c], h2))) = (Inr ps, h2)"
    and x2: "extends h h2"
    by blast
  from clone_node_succeeds [OF t x2 e] obtain c2 h3 where
    c2: "clone d emp h2 = (Inr c2, h3)" "extends h h3"
    by blast
  from clone_node_succeeds [OF t c2(2) s] obtain c3 h4 where
    c3: "clone d spv h3 = (Inr c3, h4)"
    by blast
  show ?thesis
    unfolding createUndoData_def using cs(1) c0(1) ps c2(1) c3 by simp
qed


lemma move_tree:
  assumes t: "shape (cells (heap s)) t" "distinct (nodes t)" "height t \<le> d"
    "set (nodes t) \<subseteq> {..<free (heap s)}"
    and cur: "current s = Some (node t)"
    and e: "List.find (\<lambda>a. uniqueId (cells (heap s) a) = i) (nodes t) = Some emp"
    and sp: "List.find (\<lambda>a. uniqueId (cells (heap s) a) = j) (nodes t) = Some spv"
  shows "\<exists>ud h1 cs.
     move d s i j =
       (Return, s\<lparr>heap := push_subordinate spv emp (remove_subordinate cs i h1),
                  history := history s @ [\<lparr>move_tag = ''move'', undoData = ud\<rparr>]\<rparr>)
     \<and> extends (heap s) h1
     \<and> sup_result (cells (heap s)) i (tl (nodes t)) (nodes t) (Inr cs)"
proof -
  let ?h = "cells (heap s)"
  have fe: "findEmployee d ?h (node t) i = Inr (Some emp)"
    and fs: "findEmployee d ?h (node t) j = Inr (Some spv)"
    using findEmployee_tree [OF t(1,3)] e sp by simp_all
  have mem: "emp \<in> set (nodes t)" "spv \<in> set (nodes t)"
    using e sp by (auto simp: find_Some_iff)
  from createUndoData_succeeds [OF t mem] obtain ud h1 where
    ud: "createUndoData d (node t) emp spv (heap s) = (Inr ud, h1)"
    by blast
  note x = createUndoData_effect(1) [OF ud]
  note sr = findEmployeeSupervisor_tree [OF t(1,3), of i]
  from sup_result_total [OF sr] obtain cs where
    cs: "findEmployeeSupervisor d ?h (node t) i = Inr cs"
    by blast
  have "findEmployeeSupervisor d (cells h1) (node t) i = findEmployeeSupervisor d ?h (node t) i"
    using shape_closed [OF t(1)] t(4) x
    by (intro findEmployeeSupervisor_agree [of _ "set (nodes t)"]) (auto simp: extends_def)
  with cs have cs1: "findEmployeeSupervisor d (cells h1) (node t) i = Inr cs" by simp
  have "move d s i j =
       (Return, s\<lparr>heap := push_subordinate spv emp (remove_subordinate cs i h1),
                  history := history s @ [\<lparr>move_tag = ''move'', undoData = ud\<rparr>]\<rparr>)"
    using cur fe fs ud cs1 by (simp add: move_def)
  with x sr cs show ?thesis by auto
qed

lemma reachable_nodes_allocated:
  assumes "new_app d0 h0 c = Inr s0" and "reachable s0 s"
    and "shape (cells (heap s)) t" and "current s = Some (node t)"
  shows "set (nodes t) \<subseteq> {..<free (heap s)}"
proof -
  from reachable_invariant [OF assms(1,2)] have ok: "region_ok (free h0) s" by simp
  with assms(4) have "closed (cells (heap s)) {free h0..<free (heap s)}"
    "node t \<in> {free h0..<free (heap s)}"
    by (auto simp: region_ok_def)
  from nodes_in_closed [OF this(1) assms(3) this(2)] show ?thesis by auto
qed

section \<open>What a move writes\<close>

text \<open>
  C3: in any state of a constructed chart whose live structure is a tree, let the
  identifiers resolve to the nodes \<open>E\<close> and \<open>S2\<close>, with \<open>E\<close> a subordinate of \<open>S1\<close> and
  \<open>S2\<close> another node than \<open>S1\<close>. With the stack the depth of the tree needs, \<open>move\<close>
  returns; afterwards \<open>E\<close> is not among the subordinates of \<open>S1\<close>, which are the old
  ones filtered by the identifier and so in their old order (when identifiers are
  unique, exactly the old ones without \<open>E\<close>); the subordinates of \<open>S2\<close> are the old ones
  followed by \<open>E\<close>; and every other object that existed is as it was. This holds
  wherever \<open>S2\<close> is, also inside the subtree of \<open>E\<close>.
\<close>

theorem move_relinks:
  assumes "new_app d0 h0 c = Inr s0" and "reachable s0 s"
    and sh: "shape (cells (heap s)) t" and dn: "distinct (nodes t)"
    and cur: "current s = Some (node t)" and he: "height t \<le> d"
    and fe: "findEmployee d (cells (heap s)) (node t) employeeID = Inr (Some E)"
    and fs: "findEmployee d (cells (heap s)) (node t) supervisorID = Inr (Some S2)"
    and S1: "S1 \<in> set (nodes t)" and E: "E \<in> set (subordinates (cells (heap s) S1))"
    and ne: "S2 \<noteq> S1"
  shows "\<exists>s'. move d s employeeID supervisorID = (Return, s')
     \<and> E \<notin> set (subordinates (cells (heap s') S1))
     \<and> subordinates (cells (heap s') S1)
         = filter (\<lambda>x. uniqueId (cells (heap s) x) \<noteq> employeeID)
             (subordinates (cells (heap s) S1))
     \<and> (distinct (ids (cells (heap s)) t) \<longrightarrow>
          subordinates (cells (heap s') S1)
            = filter (\<lambda>x. x \<noteq> E) (subordinates (cells (heap s) S1)))
     \<and> subordinates (cells (heap s') S2) = subordinates (cells (heap s) S2) @ [E]
     \<and> (\<forall>a<free (heap s). a \<noteq> S1 \<longrightarrow> a \<noteq> S2 \<longrightarrow> cells (heap s') a = cells (heap s) a)"
proof -
  let ?h = "cells (heap s)"
  let ?P = "\<lambda>a. uniqueId (?h a) = employeeID"
  note al = reachable_nodes_allocated [OF assms(1,2) sh cur]
  from fe fs findEmployee_tree [OF sh he] have
    fi: "List.find ?P (nodes t) = Some E"
    and fj: "List.find (\<lambda>a. uniqueId (?h a) = supervisorID) (nodes t) = Some S2"
    by simp_all
  then have iE: "uniqueId (?h E) = employeeID" and S2: "S2 \<in> set (nodes t)"
    by (auto simp: find_Some_iff)
  have Etl: "E \<in> set (tl (nodes t))" by (rule children_below [OF sh S1 E])
  then have Et: "E \<in> set (nodes t)" by (rule in_tl_nodes)
  from tl_nodes_not_node [OF dn Etl] fi have ftl: "List.find ?P (tl (nodes t)) = Some E"
    by (subst (asm) nodes_eq) (auto simp: tl_nodes split: if_splits)
  from move_tree [OF sh dn he al cur fi fj] obtain ud h1 cs where
    mv: "move d s employeeID supervisorID =
       (Return, s\<lparr>heap := push_subordinate S2 E (remove_subordinate cs employeeID h1),
                  history := history s @ [\<lparr>move_tag = ''move'', undoData = ud\<rparr>]\<rparr>)"
    and x: "extends (heap s) h1"
    and sr: "sup_result ?h employeeID (tl (nodes t)) (nodes t) (Inr cs)"
    by blast
  from sr ftl obtain p where p: "cs = Some p" "p \<in> set (nodes t)"
    "E \<in> set (subordinates (?h p))"
    by (auto simp: sup_result_def)
  from unique_parent [OF sh dn p(2) S1 p(3) E] p(1) have cs: "cs = Some S1" by simp
  have old: "cells h1 a = ?h a" if "a < free (heap s)" for a
    using x that by (simp add: extends_def)
  have sub_t: "set (subordinates (?h S1)) \<subseteq> set (nodes t)"
    using shape_kids_in_nodes [OF sh S1] .
  let ?h3 = "push_subordinate S2 E (remove_subordinate cs employeeID h1)"
  have fl: "filter (\<lambda>sub. uniqueId (cells h1 sub) \<noteq> employeeID) (subordinates (?h S1))
        = filter (\<lambda>x. uniqueId (?h x) \<noteq> employeeID) (subordinates (?h S1))"
    using sub_t al old by (intro filter_cong) auto
  have c12: "cells h1 S1 = ?h S1" "cells h1 S2 = ?h S2" using S1 S2 al old by auto
  have a: "subordinates (cells ?h3 S1)
        = filter (\<lambda>x. uniqueId (?h x) \<noteq> employeeID) (subordinates (?h S1))"
    using cs ne fl c12 by (simp add: push_subordinate_cells remove_subordinate_cells)
  have b: "subordinates (cells ?h3 S2) = subordinates (?h S2) @ [E]"
    using cs ne c12 by (simp add: push_subordinate_cells remove_subordinate_cells)
  have e: "E \<notin> set (subordinates (cells ?h3 S1))" unfolding a using iE by simp
  have u: "subordinates (cells ?h3 S1) = filter (\<lambda>x. x \<noteq> E) (subordinates (?h S1))"
    if di: "distinct (ids ?h t)"
    unfolding a
  proof (rule filter_cong [OF refl])
    fix x assume "x \<in> set (subordinates (?h S1))"
    with sub_t have "x \<in> set (nodes t)" by auto
    with unique_ids(2) [OF di] Et iE show "(uniqueId (?h x) \<noteq> employeeID) = (x \<noteq> E)"
      by (auto dest: inj_onD)
  qed
  have o: "\<forall>a<free (heap s). a \<noteq> S1 \<longrightarrow> a \<noteq> S2 \<longrightarrow> cells ?h3 a = ?h a"
    using cs old by (simp add: relink_other)
  from mv a b e u o show ?thesis by simp
qed

theorem move_relinks_witness:
  "new_app 5 example_heap 3 = Inr example_app
   \<and> shape (cells (heap example_app)) example_tree
   \<and> distinct (nodes example_tree)
   \<and> current example_app = Some (node example_tree)
   \<and> findEmployee 5 (cells (heap example_app)) (node example_tree) 2 = Inr (Some 5)
   \<and> findEmployee 5 (cells (heap example_app)) (node example_tree) 3 = Inr (Some 6)
   \<and> subordinates (cells (heap example_app) 7) = [5, 6]
   \<and> subordinates (cells (heap example_app) 6) = []
   \<and> (\<exists>s'. move 5 example_app 2 3 = (Return, s')
         \<and> subordinates (cells (heap s') 7) = [6]
         \<and> subordinates (cells (heap s') 6) = [5]
         \<and> cells (heap s') 5 = cells (heap example_app) 5)"
proof -
  have sh: "shape (cells (heap example_app)) example_tree" by code_simp
  have dn: "distinct (nodes example_tree)" by code_simp
  have di: "distinct (ids (cells (heap example_app)) example_tree)" by code_simp
  have cur: "current example_app = Some (node example_tree)" by code_simp
  have he: "height example_tree \<le> 5" by code_simp
  have fe: "findEmployee 5 (cells (heap example_app)) (node example_tree) 2 = Inr (Some 5)"
    by code_simp
  have fs: "findEmployee 5 (cells (heap example_app)) (node example_tree) 3 = Inr (Some 6)"
    by code_simp
  have S1: "7 \<in> set (nodes example_tree)" by (simp add: example_tree_def)
  have s7: "subordinates (cells (heap example_app) 7) = [5, 6]" by code_simp
  have s6: "subordinates (cells (heap example_app) 6) = []" by code_simp
  have E: "5 \<in> set (subordinates (cells (heap example_app) 7))" by (simp add: s7)
  have f: "(5::nat) < free (heap example_app)" by code_simp
  from move_relinks [OF example_app_ok reach_init sh dn cur he fe fs S1 E] di
  obtain s' where "move 5 example_app 2 3 = (Return, s')"
    "subordinates (cells (heap s') 7) = filter (\<lambda>x. x \<noteq> 5) (subordinates (cells (heap example_app) 7))"
    "subordinates (cells (heap s') 6) = subordinates (cells (heap example_app) 6) @ [5]"
    "\<forall>a<free (heap example_app). a \<noteq> 7 \<longrightarrow> a \<noteq> 6 \<longrightarrow>
       cells (heap s') a = cells (heap example_app) a"
    by auto
  with f s7 s6
  have "\<exists>s'. move 5 example_app 2 3 = (Return, s')
         \<and> subordinates (cells (heap s') 7) = [6]
         \<and> subordinates (cells (heap s') 6) = [5]
         \<and> cells (heap s') 5 = cells (heap example_app) 5"
    by (intro exI [of _ s']) simp
  with example_app_ok sh dn cur fe fs s7 s6 show ?thesis by blast
qed

section \<open>Moving a node below itself\<close>

text \<open>
  C7: the live tree of the example chart is a tree with unique identifiers in which C(4)
  is the subordinate of A(2). Both identifiers resolve, \<open>move(2, 4)\<close> returns, and
  afterwards the live tree is CEO(1) with B(3) alone: neither 2 nor 4 resolves from the
  root any more, and A and C refer to each other, so serialising A reports a circular
  structure.
\<close>

theorem move_under_descendant_corrupts:
  "shape (cells (heap example_app)) example_tree
   \<and> distinct (ids (cells (heap example_app)) example_tree)
   \<and> current example_app = Some (node example_tree)
   \<and> findEmployee 5 (cells (heap example_app)) 7 2 = Inr (Some 5)
   \<and> findEmployee 5 (cells (heap example_app)) 7 4 = Inr (Some 4)
   \<and> subordinates (cells (heap example_app) 5) = [4]
   \<and> fst (move 5 example_app 2 4) = Return
   \<and> current (snd (move 5 example_app 2 4)) = Some 7
   \<and> stringify 5 (cells (heap (snd (move 5 example_app 2 4)))) [] 7
       = Inr (JObj 1 ''CEO'' [JObj 3 ''B'' []])
   \<and> findEmployee 5 (cells (heap (snd (move 5 example_app 2 4)))) 7 2 = Inr None
   \<and> findEmployee 5 (cells (heap (snd (move 5 example_app 2 4)))) 7 4 = Inr None
   \<and> subordinates (cells (heap (snd (move 5 example_app 2 4))) 5) = [4]
   \<and> subordinates (cells (heap (snd (move 5 example_app 2 4))) 4) = [5]
   \<and> stringify 5 (cells (heap (snd (move 5 example_app 2 4)))) [] 5 = Inl CircularStructure"
  by code_simp

lemma node_prune [simp]: "node (prune K p t) = node t"
  by (cases t) simp

lemma prune_absent: "p \<notin> set (nodes t) \<Longrightarrow> prune K p t = t"
proof (induction t)
  case (ANode a ts)
  then have "map (prune K p) ts = ts" by (auto intro: map_idI)
  with ANode.prems show ?case by simp
qed

lemma reach_closed:
  assumes "closed h R" and "a \<in> R"
  shows "reach h a \<subseteq> R"
proof
  fix b assume "b \<in> reach h a"
  then have "(a, b) \<in> {(x, y). y \<in> set (subordinates (h x))}\<^sup>*" by (simp add: reach_def)
  then show "b \<in> R"
    by (induction rule: rtrancl_induct) (use assms in \<open>auto dest: closedD\<close>)
qed

lemma reach_step: "b \<in> set (subordinates (h a)) \<Longrightarrow> reach h b \<subseteq> reach h a"
  by (auto simp: reach_def intro: converse_rtrancl_into_rtrancl)

lemma reach_self: "a \<in> reach h a"
  by (simp add: reach_def)

lemma reach_tree: "shape h t \<Longrightarrow> reach h (node t) = set (nodes t)"
proof
  assume sh: "shape h t"
  show "reach h (node t) \<subseteq> set (nodes t)"
    by (rule reach_closed [OF shape_closed [OF sh]]) simp
  from sh show "set (nodes t) \<subseteq> reach h (node t)"
  proof (induction t)
    case (ANode a ts)
    have "set (nodes k) \<subseteq> reach h a" if k: "k \<in> set ts" for k
    proof -
      have "set (nodes k) \<subseteq> reach h (node k)" using ANode.IH [OF k] ANode.prems k by simp
      moreover have "node k \<in> set (subordinates (h a))" using ANode.prems k by simp
      ultimately show ?thesis using reach_step by blast
    qed
    then show ?case using reach_self [of a h] by auto
  qed
qed

lemma prune_nodes_subset: "set (nodes (prune K p t)) \<subseteq> set (nodes t)"
  by (induction t) auto

lemma distinct_kid:
  "distinct (nodes (ANode a ts)) \<Longrightarrow> k \<in> set ts \<Longrightarrow> distinct (nodes k) \<and> a \<notin> set (nodes k)"
  by (auto simp: distinct_concat_iff)

text \<open>Filtering the subordinates of \<open>p\<close> in the store prunes the layout at \<open>p\<close>.\<close>

lemma prune_shape:
  assumes "shape h t" and "distinct (nodes t)"
  shows "shape (h(p := (h p)\<lparr>subordinates := filter (\<lambda>c. \<not> K c) (subordinates (h p))\<rparr>))
           (prune K p t)"
  using assms
proof (induction t)
  case (ANode a ts)
  let ?h' = "h(p := (h p)\<lparr>subordinates := filter (\<lambda>c. \<not> K c) (subordinates (h p))\<rparr>)"
  show ?case
  proof (cases "a = p")
    case True
    have same: "prune K p k = k" "shape ?h' k" if k: "k \<in> set ts" for k
    proof -
      from distinct_kid [OF ANode.prems(2) k] True have np: "p \<notin> set (nodes k)" by simp
      then show "prune K p k = k" by (rule prune_absent)
      have "shape ?h' k = shape h k" using np by (intro shape_agree) auto
      with ANode.prems(1) k show "shape ?h' k" by simp
    qed
    then have "map (prune K p) ts = ts" by (auto intro: map_idI)
    with True have eq: "prune K p (ANode a ts) = ANode a (filter (\<lambda>k. \<not> K (node k)) ts)"
      by simp
    have "subordinates (?h' a) = map node (filter (\<lambda>k. \<not> K (node k)) ts)"
      using True ANode.prems(1) by (simp add: filter_map comp_def)
    moreover have "\<forall>k\<in>set (filter (\<lambda>k. \<not> K (node k)) ts). shape ?h' k"
      using same(2) by simp
    ultimately show ?thesis unfolding eq by (simp only: shape.simps)
  next
    case False
    have "shape ?h' (prune K p k)" if k: "k \<in> set ts" for k
    proof (rule ANode.IH [OF k])
      show "shape h k" using ANode.prems(1) k by simp
      show "distinct (nodes k)" using distinct_kid [OF ANode.prems(2) k] by simp
    qed
    then have "\<forall>k\<in>set (map (prune K p) ts). shape ?h' k" by simp
    moreover have "prune K p (ANode a ts) = ANode a (map (prune K p) ts)" using False by simp
    moreover have "subordinates (?h' a) = map node (map (prune K p) ts)"
      using False ANode.prems(1) by (simp add: comp_def)
    ultimately show ?thesis by (simp only: shape.simps)
  qed
qed


lemma nodes_eq_node: "nodes k = nodes k' \<Longrightarrow> node k = node k'"
  using node_hd [of k] node_hd [of k'] by simp

lemma kids_disjoint:
  assumes "distinct (concat (map nodes ts))" and "k \<in> set ts" and "k' \<in> set ts"
    and "node k \<noteq> node k'"
  shows "set (nodes k) \<inter> set (nodes k') = {}"
proof -
  from assms(4) have "nodes k \<noteq> nodes k'" by (auto dest: nodes_eq_node)
  with assms(1,2,3) show ?thesis by (simp add: distinct_concat_iff)
qed

text \<open>What is pruned is out of the tree: the layout of a removed subordinate shares no
  address with the pruned layout.\<close>

lemma prune_removes:
  "shape h t \<Longrightarrow> distinct (nodes t) \<Longrightarrow> p \<in> set (nodes t)
   \<Longrightarrow> c \<in> set (subordinates (h p)) \<Longrightarrow> K c \<Longrightarrow> shape h u \<Longrightarrow> node u = c
   \<Longrightarrow> set (nodes u) \<inter> set (nodes (prune K p t)) = {}"
proof (induction t)
  case (ANode a ts)
  have dc: "distinct (concat (map nodes ts))" using ANode.prems(2) by simp
  have sk: "\<And>k. k \<in> set ts \<Longrightarrow> shape h k" using ANode.prems(1) by simp
  show ?case
  proof (cases "a = p")
    case True
    with ANode.prems(1,4) obtain k where k: "k \<in> set ts" "c = node k" by auto
    with shape_unique [OF ANode.prems(6) sk [OF k(1)]] ANode.prems(7) have uk: "u = k" by simp
    have "map (prune K p) ts = ts"
      using distinct_kid [OF ANode.prems(2)] True by (auto intro!: map_idI prune_absent)
    with True have eq: "nodes (prune K p (ANode a ts))
        = a # concat (map nodes (filter (\<lambda>k. \<not> K (node k)) ts))"
      by simp
    have "a \<notin> set (nodes k)" using distinct_kid [OF ANode.prems(2) k(1)] by simp
    moreover have "set (nodes k) \<inter> set (nodes k') = {}"
      if "k' \<in> set ts" "\<not> K (node k')" for k'
      using that k ANode.prems(5) by (intro kids_disjoint [OF dc]) auto
    ultimately show ?thesis unfolding eq uk by auto
  next
    case False
    with ANode.prems(3) obtain k1 where k1: "k1 \<in> set ts" "p \<in> set (nodes k1)" by auto
    have ck1: "c \<in> set (nodes k1)"
      using children_below [OF sk [OF k1(1)] k1(2) ANode.prems(4)] by (rule in_tl_nodes)
    have sub: "set (nodes u) \<subseteq> set (nodes k1)"
      using nodes_in_closed [OF shape_closed [OF sk [OF k1(1)]] ANode.prems(6)] ck1
        ANode.prems(7) by simp
    have ih: "set (nodes u) \<inter> set (nodes (prune K p k1)) = {}"
      using ANode.IH [OF k1(1) sk [OF k1(1)] _ k1(2) ANode.prems(4,5,6,7)]
        distinct_kid [OF ANode.prems(2) k1(1)] by simp
    have "set (nodes u) \<inter> set (nodes (prune K p k)) = {}" if k: "k \<in> set ts" for k
    proof (cases "node k = node k1")
      case True
      with shape_unique [OF sk [OF k] sk [OF k1(1)]] ih show ?thesis by simp
    next
      case False
      from kids_disjoint [OF dc k k1(1) False] sub prune_nodes_subset [of K p k]
      show ?thesis by blast
    qed
    moreover have "a \<notin> set (nodes u)"
      using distinct_kid [OF ANode.prems(2) k1(1)] sub by auto
    moreover have "nodes (prune K p (ANode a ts)) = a # concat (map nodes (map (prune K p) ts))"
      using False by simp
    ultimately show ?thesis by auto
  qed
qed

lemma not_own_child:
  assumes "shape h t" and "distinct (nodes t)" and "p \<in> set (nodes t)"
  shows "p \<notin> set (subordinates (h p))"
proof
  assume c: "p \<in> set (subordinates (h p))"
  from subtree_exists [OF assms(1,3)] assms(2) obtain u where
    u: "shape h u" "node u = p" "distinct (nodes u)"
    by blast
  have "p \<in> set (tl (nodes u))" using children_below [OF u(1) _ c] u(2) node_in_nodes by metis
  with tl_nodes_not_node [OF u(3)] u(2) show False by blast
qed


lemma remove_subordinate_upd:
  "cells (remove_subordinate (Some p) i h) =
     (cells h)(p := (cells h p)\<lparr>subordinates :=
        filter (\<lambda>c. \<not> uniqueId (cells h c) = i) (subordinates (cells h p))\<rparr>)"
  by (simp add: remove_subordinate_def set_subordinates_def)

text \<open>The live tree after a move whose writes leave the pruned tree alone.\<close>

lemma pruned_tree:
  assumes sh: "shape (cells h1) t" and dn: "distinct (nodes t)"
    and sp: "spv \<notin> set (nodes (prune (\<lambda>c. uniqueId (cells h1 c) = i) p t))"
  shows "shape (cells (push_subordinate spv emp (remove_subordinate (Some p) i h1)))
           (prune (\<lambda>c. uniqueId (cells h1 c) = i) p t)"
proof -
  let ?t1 = "prune (\<lambda>c. uniqueId (cells h1 c) = i) p t"
  let ?h2 = "remove_subordinate (Some p) i h1"
  have "shape (cells ?h2) ?t1"
    unfolding remove_subordinate_upd by (rule prune_shape [OF sh dn])
  moreover have "shape (cells (push_subordinate spv emp ?h2)) ?t1 = shape (cells ?h2) ?t1"
    using sp by (intro shape_agree) (auto simp: push_subordinate_cells)
  ultimately show ?thesis by simp
qed

text \<open>
  C10: in any state of a constructed chart whose live structure is a tree, let the
  identifier resolve to a node \<open>n\<close> other than the root. With the stack the depth of the
  tree needs, \<open>move\<close> of the identifier onto itself returns; the owner \<open>p\<close> of \<open>n\<close> has
  its subordinates filtered by the identifier, so \<open>n\<close> is no longer among them; \<open>n\<close>
  is appended to its own subordinates; and nothing that could be reached from \<open>n\<close>
  before can be reached from the root after.
\<close>

theorem move_onto_itself:
  assumes "new_app d0 h0 c = Inr s0" and "reachable s0 s"
    and sh: "shape (cells (heap s)) t" and dn: "distinct (nodes t)"
    and cur: "current s = Some (node t)" and he: "height t \<le> d"
    and f: "findEmployee d (cells (heap s)) (node t) i = Inr (Some n)" and nr: "n \<noteq> node t"
  shows "\<exists>s' p. move d s i i = (Return, s') \<and> current s' = Some (node t)
      \<and> p \<in> set (nodes t) \<and> n \<in> set (subordinates (cells (heap s) p))
      \<and> subordinates (cells (heap s') p)
          = filter (\<lambda>x. uniqueId (cells (heap s) x) \<noteq> i) (subordinates (cells (heap s) p))
      \<and> n \<notin> set (subordinates (cells (heap s') p))
      \<and> subordinates (cells (heap s') n) = subordinates (cells (heap s) n) @ [n]
      \<and> reach (cells (heap s')) (node t) \<inter> reach (cells (heap s)) n = {}"
proof -
  let ?h = "cells (heap s)"
  let ?P = "\<lambda>a. uniqueId (?h a) = i"
  note al = reachable_nodes_allocated [OF assms(1,2) sh cur]
  from f findEmployee_tree [OF sh he, of i] have fn: "List.find ?P (nodes t) = Some n" by simp
  then have Pn: "?P n" and nt: "n \<in> set (nodes t)" by (auto simp: find_Some_iff)
  from fn nr have ftl: "List.find ?P (tl (nodes t)) = Some n"
    by (subst (asm) nodes_eq) (auto simp: tl_nodes split: if_splits)
  from move_tree [OF sh dn he al cur fn fn] obtain ud h1 cs where
    mv: "move d s i i =
       (Return, s\<lparr>heap := push_subordinate n n (remove_subordinate cs i h1),
                  history := history s @ [\<lparr>move_tag = ''move'', undoData = ud\<rparr>]\<rparr>)"
    and x: "extends (heap s) h1"
    and sr: "sup_result ?h i (tl (nodes t)) (nodes t) (Inr cs)"
    by blast
  from sr ftl obtain p where p: "cs = Some p" "p \<in> set (nodes t)"
    "n \<in> set (subordinates (?h p))"
    by (auto simp: sup_result_def)
  from not_own_child [OF sh dn p(2)] p(3) have pn: "p \<noteq> n" by auto
  have old: "cells h1 a = ?h a" if "a \<in> set (nodes t)" for a
    using x that al by (auto simp: extends_def)
  let ?h3 = "push_subordinate n n (remove_subordinate cs i h1)"
  let ?K = "\<lambda>c. uniqueId (cells h1 c) = i"
  let ?t1 = "prune ?K p t"
  have sub_t: "set (subordinates (?h p)) \<subseteq> set (nodes t)"
    using shape_kids_in_nodes [OF sh p(2)] .
  have fl: "filter (\<lambda>sub. uniqueId (cells h1 sub) \<noteq> i) (subordinates (?h p))
        = filter (\<lambda>x. uniqueId (?h x) \<noteq> i) (subordinates (?h p))"
    using sub_t old by (intro filter_cong) auto
  have sp: "subordinates (cells ?h3 p)
        = filter (\<lambda>x. uniqueId (?h x) \<noteq> i) (subordinates (?h p))"
    using p(1,2) pn fl old by (simp add: push_subordinate_cells remove_subordinate_cells)
  have sn: "subordinates (cells ?h3 n) = subordinates (?h n) @ [n]"
    using p(1) pn nt old by (simp add: push_subordinate_cells remove_subordinate_cells)
  have sh1: "shape (cells h1) t" using extends_shape [OF x sh al] .
  from subtree_exists [OF sh1 nt] obtain u where u: "shape (cells h1) u" "node u = n"
    "set (nodes u) \<subseteq> set (nodes t)"
    by blast
  have n1: "n \<in> set (subordinates (cells h1 p))" using p(2,3) old by simp
  have Kn: "?K n" using Pn nt old by simp
  have dis: "set (nodes u) \<inter> set (nodes ?t1) = {}"
    using prune_removes [of "cells h1" t p n ?K u, OF sh1 dn p(2) n1 Kn u(1,2)] .
  then have "n \<notin> set (nodes ?t1)" using u(2) node_in_nodes [of u] by auto
  from pruned_tree [OF sh1 dn this] p(1) have sh3: "shape (cells ?h3) ?t1" by simp
  have "shape ?h u = shape (cells h1) u" using u(3) old by (intro shape_agree) auto
  with u(1) have "shape ?h u" by simp
  then have "reach ?h n = set (nodes u)" using reach_tree u(2) by metis
  moreover have "reach (cells ?h3) (node t) = set (nodes ?t1)"
    using reach_tree [OF sh3] by simp
  ultimately have "reach (cells ?h3) (node t) \<inter> reach ?h n = {}" using dis by auto
  with mv cur p(2,3) sp sn Pn show ?thesis by auto
qed

theorem move_onto_itself_witness:
  "new_app 5 example_heap 3 = Inr example_app
   \<and> shape (cells (heap example_app)) example_tree
   \<and> distinct (nodes example_tree)
   \<and> current example_app = Some (node example_tree)
   \<and> findEmployee 5 (cells (heap example_app)) (node example_tree) 2 = Inr (Some 5)
   \<and> stringify 5 (cells (heap (snd (move 5 example_app 2 2)))) [] 7
       = Inr (JObj 1 ''CEO'' [JObj 3 ''B'' []])
   \<and> (\<exists>s' p. move 5 example_app 2 2 = (Return, s') \<and> current s' = Some (node example_tree)
      \<and> p \<in> set (nodes example_tree) \<and> 5 \<in> set (subordinates (cells (heap example_app) p))
      \<and> subordinates (cells (heap s') p)
          = filter (\<lambda>x. uniqueId (cells (heap example_app) x) \<noteq> 2)
              (subordinates (cells (heap example_app) p))
      \<and> 5 \<notin> set (subordinates (cells (heap s') p))
      \<and> subordinates (cells (heap s') 5) = subordinates (cells (heap example_app) 5) @ [5]
      \<and> reach (cells (heap s')) (node example_tree) \<inter> reach (cells (heap example_app)) 5 = {})"
proof -
  have sh: "shape (cells (heap example_app)) example_tree" by code_simp
  have dn: "distinct (nodes example_tree)" by code_simp
  have cur: "current example_app = Some (node example_tree)" by code_simp
  have he: "height example_tree \<le> 5" by code_simp
  have f: "findEmployee 5 (cells (heap example_app)) (node example_tree) 2 = Inr (Some 5)"
    by code_simp
  have nr: "5 \<noteq> node example_tree" by (simp add: example_tree_def)
  have v: "stringify 5 (cells (heap (snd (move 5 example_app 2 2)))) [] 7
       = Inr (JObj 1 ''CEO'' [JObj 3 ''B'' []])"
    by code_simp
  from move_onto_itself [OF example_app_ok reach_init sh dn cur he f nr]
    example_app_ok sh dn cur f v
  show ?thesis by blast
qed


section \<open>The identifiers of the live structure\<close>


lemma relink_uniqueId [simp]:
  "uniqueId (cells (push_subordinate spv emp (remove_subordinate cs i h)) a) = uniqueId (cells h a)"
  by (simp add: push_subordinate_cells remove_subordinate_cells)






end
